theory Spec2Isabelle
  imports Main "HOL-Library.Word"
begin

unbundle bit_operations_syntax

section \<open>The networking core of bloomd: data model\<close>

text \<open>
  The development follows \<^verbatim>\<open>src/bloomd/networking.c\<close>. C integers are modelled as
  \<^typ>\<open>int\<close>; where the C code computes in an unsigned type whose wrap-around can be
  reached (\<^verbatim>\<open>circbuf_avail_buf\<close>, \<^verbatim>\<open>circbuf_grow_buf\<close>) the reduction modulo
  the width is written out. Bytes are 8-bit words.
\<close>

type_synonym byte = "8 word"

text \<open>
  The block a \<^verbatim>\<open>char *\<close> points to is a function from offsets to bytes. The block
  has no length of its own, as in C: reading or writing past the allocation is not
  detected by the model, so the theorems below state the bounds they rely on.
\<close>

type_synonym block = "nat \<Rightarrow> byte"

text \<open>
  \<^verbatim>\<open>
  typedef struct {
      int write_cursor;
      int read_cursor;
      uint32_t buf_size;
      char *buffer;
  } circular_buffer;
  \<close>
  A null \<^verbatim>\<open>buffer\<close> is \<open>None\<close>. Dereferencing it is \<open>the None\<close>, of which
  nothing can be proved.
\<close>

record circular_buffer =
  write_cursor :: int
  read_cursor :: int
  buf_size :: int
  buffer :: "block option"

text \<open>
  An \<^verbatim>\<open>ev_io\<close> watcher, as far as the core uses it: the descriptor, the event
  mask it was initialised with, and whether it is started in the loop.
\<close>

record ev_io =
  fd :: int
  ev_mask :: int
  active :: bool

definition EV_READ :: int where "EV_READ = 1"
definition EV_WRITE :: int where "EV_WRITE = 2"

text \<open>
  \<^verbatim>\<open>struct conn_info\<close>. The back pointer \<^verbatim>\<open>netconf\<close> is not a field: the
  functions that follow it take the networking state as an argument. The spin lock
  \<^verbatim>\<open>output_lock\<close> shows in the lock trace of the networking state.
\<close>

record conn_info =
  client :: ev_io
  should_schedule :: int
  input :: circular_buffer
  use_write_buf :: int
  write_client :: ev_io
  "output" :: circular_buffer

subsection \<open>Memory primitives\<close>

text \<open>The \<open>n\<close> bytes at offset \<open>off\<close> of a block.\<close>

definition mem_read :: "block \<Rightarrow> int \<Rightarrow> int \<Rightarrow> byte list" where
  "mem_read m off n = map (\<lambda>i. m (nat off + i)) [0..<nat n]"

text \<open>
  \<^verbatim>\<open>memcpy(dst + off, src + soff, n)\<close>, the source being a caller's byte array.
\<close>

definition memcpy :: "block \<Rightarrow> int \<Rightarrow> byte list \<Rightarrow> int \<Rightarrow> int \<Rightarrow> block" where
  "memcpy dst off src soff n =
     (\<lambda>a. if nat off \<le> a \<and> a < nat off + nat n then src ! (nat soff + (a - nat off)) else dst a)"

text \<open>\<^verbatim>\<open>memcpy(dst + off, src + soff, n)\<close> between two blocks.\<close>

definition memcpy_block :: "block \<Rightarrow> int \<Rightarrow> block \<Rightarrow> int \<Rightarrow> int \<Rightarrow> block" where
  "memcpy_block dst off src soff n =
     (\<lambda>a. if nat off \<le> a \<and> a < nat off + nat n then src (nat soff + (a - nat off)) else dst a)"

text \<open>The position of the first occurrence of a byte in a list.\<close>

primrec scan :: "byte list \<Rightarrow> byte \<Rightarrow> nat option" where
  "scan [] t = None"
| "scan (x # xs) t = (if x = t then Some 0 else map_option Suc (scan xs t))"

text \<open>
  \<^verbatim>\<open>memchr(m + off, t, n)\<close>: the offset in the block of the first \<open>t\<close> among the
  \<open>n\<close> bytes from \<open>off\<close>, or \<open>None\<close> for the null pointer.
\<close>

definition memchr :: "block \<Rightarrow> int \<Rightarrow> byte \<Rightarrow> int \<Rightarrow> int option" where
  "memchr m off t n = map_option (\<lambda>i. off + int i) (scan (mem_read m off n) t)"

section \<open>The circular buffer\<close>

definition INIT_CONN_BUF_SIZE :: int where "INIT_CONN_BUF_SIZE = 4096"
definition CONN_BUF_MULTIPLIER :: int where "CONN_BUF_MULTIPLIER = 8"

text \<open>
  \<^verbatim>\<open>circbuf_alloc\<close> and \<^verbatim>\<open>init_circular_buffer\<close>. What \<^verbatim>\<open>malloc\<close> returns is
  not initialised: the contents of the new block are the argument \<open>fresh\<close>.
\<close>

definition circbuf_alloc :: "block \<Rightarrow> circular_buffer \<Rightarrow> circular_buffer" where
  "circbuf_alloc fresh b = b\<lparr>buf_size := INIT_CONN_BUF_SIZE, buffer := Some fresh\<rparr>"

definition init_circular_buffer :: "block \<Rightarrow> circular_buffer \<Rightarrow> circular_buffer" where
  "init_circular_buffer fresh b =
     (let b1 = b\<lparr>read_cursor := 0, write_cursor := 0\<rparr>
      in if buffer b1 = None then circbuf_alloc fresh b1 else b1)"

definition circbuf_reset :: "circular_buffer \<Rightarrow> circular_buffer" where
  "circbuf_reset b =
     (let b1 = b\<lparr>read_cursor := 0, write_cursor := 0\<rparr>
      in if buf_size b1 > INIT_CONN_BUF_SIZE then b1\<lparr>buf_size := 0, buffer := None\<rparr> else b1)"

text \<open>
  \<^verbatim>\<open>circbuf_avail_buf\<close> returns a \<^verbatim>\<open>uint64_t\<close>. The first branch converts an
  \<^verbatim>\<open>int\<close>; the second is computed in \<^verbatim>\<open>uint32_t\<close>, the type of
  \<^verbatim>\<open>buf_size\<close>, and then widened.
\<close>

definition circbuf_avail_buf :: "circular_buffer \<Rightarrow> int" where
  "circbuf_avail_buf b =
     (if write_cursor b < read_cursor b
      then (read_cursor b - write_cursor b - 1) mod 2 ^ 64
      else (buf_size b - write_cursor b + read_cursor b - 1) mod 2 ^ 32)"

text \<open>
  \<^verbatim>\<open>circbuf_setup_writev_iovec\<close>: the vectors handed to \<^verbatim>\<open>writev\<close>, each an offset
  into the buffer and a length.
\<close>

definition circbuf_setup_writev_iovec :: "circular_buffer \<Rightarrow> (int \<times> int) list" where
  "circbuf_setup_writev_iovec b =
     (if write_cursor b < read_cursor b
      then [(read_cursor b, buf_size b - read_cursor b), (0, write_cursor b)]
      else [(read_cursor b, write_cursor b - read_cursor b)])"

text \<open>
  \<^verbatim>\<open>circbuf_setup_readv_iovec\<close>: the vectors handed to \<^verbatim>\<open>readv\<close>. The length
  \<^verbatim>\<open>buf_size - write_cursor - 1\<close> is computed in \<^verbatim>\<open>uint32_t\<close> and stored in a
  \<^verbatim>\<open>size_t\<close>, where the 1 is added back.
\<close>

definition circbuf_setup_readv_iovec :: "circular_buffer \<Rightarrow> (int \<times> int) list" where
  "circbuf_setup_readv_iovec b =
     (if write_cursor b < read_cursor b
      then [(write_cursor b, read_cursor b - write_cursor b - 1)]
      else
        (let len0 = (buf_size b - write_cursor b - 1) mod 2 ^ 32 in
         if read_cursor b > 0
         then [(write_cursor b, len0 + 1), (0, read_cursor b - 1)]
         else [(write_cursor b, len0)]))"

text \<open>The bytes a list of vectors over a block describes, in order.\<close>

definition iovec_bytes :: "block \<Rightarrow> (int \<times> int) list \<Rightarrow> byte list" where
  "iovec_bytes m vs = concat (map (\<lambda>(base, len). mem_read m base len) vs)"

text \<open>
  The readable content of a ring: what \<^verbatim>\<open>writev\<close> over
  \<^verbatim>\<open>circbuf_setup_writev_iovec\<close> would transmit.
\<close>

definition readable :: "circular_buffer \<Rightarrow> byte list" where
  "readable b = iovec_bytes (the (buffer b)) (circbuf_setup_writev_iovec b)"

text \<open>
  \<^verbatim>\<open>circbuf_advance_write\<close> and \<^verbatim>\<open>circbuf_advance_read\<close>. The remainder is taken
  in \<^verbatim>\<open>uint64_t\<close>; on \<^verbatim>\<open>buf_size == 0\<close>, which \<^verbatim>\<open>circbuf_reset\<close> leaves
  behind when it frees a grown buffer, the division traps: that is \<open>None\<close>.
\<close>

definition circbuf_advance_write :: "circular_buffer \<Rightarrow> int \<Rightarrow> circular_buffer option" where
  "circbuf_advance_write b bytes =
     (if buf_size b = 0 then None
      else Some (b\<lparr>write_cursor := (write_cursor b + bytes) mod buf_size b\<rparr>))"

definition circbuf_advance_read :: "circular_buffer \<Rightarrow> int \<Rightarrow> circular_buffer option" where
  "circbuf_advance_read b bytes =
     (if buf_size b = 0 then None
      else
        (let b1 = b\<lparr>read_cursor := (read_cursor b + bytes) mod buf_size b\<rparr>
         in if read_cursor b1 = write_cursor b1
            then Some (b1\<lparr>read_cursor := 0, write_cursor := 0\<rparr>) else Some b1))"

section \<open>Extracting a frame from the input ring\<close>

text \<open>
  The output parameters of \<^verbatim>\<open>extract_to_terminator\<close>: the \<^verbatim>\<open>buf_len\<close> bytes that
  \<^verbatim>\<open>*buf\<close> points to when the function returns, the length, and \<^verbatim>\<open>should_free\<close>.
\<close>

record extract_out =
  buf :: "byte list"
  buf_len :: int
  should_free :: int

text \<open>
  The end of \<^verbatim>\<open>extract_to_terminator\<close>: both cursors go back to 0 when the read
  cursor has caught up, and the result is 0 exactly if a terminator was found.
\<close>

definition extract_finish ::
  "extract_out option \<Rightarrow> conn_info \<Rightarrow> int \<times> extract_out option \<times> conn_info" where
  "extract_finish out conn =
     (let inp = input conn;
          conn1 = (if read_cursor inp = write_cursor inp
                   then conn\<lparr>input := inp\<lparr>read_cursor := 0, write_cursor := 0\<rparr>\<rparr>
                   else conn)
      in (if out = None then - 1 else 0, out, conn1))"

text \<open>
  \<^verbatim>\<open>extract_to_terminator(conn, terminator, &buf, &buf_len, &should_free)\<close>. The
  result is the return value, the output parameters where the code sets them, and
  the connection. In the wrapped case with the terminator found before the end of the
  allocation the C function returns at once, without the cursor reset.
\<close>

definition extract_to_terminator ::
  "conn_info \<Rightarrow> byte \<Rightarrow> int \<times> extract_out option \<times> conn_info" where
  "extract_to_terminator conn terminator =
     (let inp = input conn; m = the (buffer inp) in
      if write_cursor inp < read_cursor inp then
        (case memchr m (read_cursor inp) terminator (buf_size inp - read_cursor inp) of
           Some term_addr \<Rightarrow>
             (let len = term_addr - read_cursor inp + 1;
                  m1 = m(nat term_addr := 0)
              in (0,
                  Some \<lparr>buf = mem_read m1 (read_cursor inp) len, buf_len = len, should_free = 0\<rparr>,
                  conn\<lparr>input := inp\<lparr>buffer := Some m1, read_cursor := term_addr + 1\<rparr>\<rparr>))
         | None \<Rightarrow>
             (case memchr m 0 terminator (write_cursor inp) of
                Some term_addr \<Rightarrow>
                  (let start_size = term_addr + 1;
                       end_size = buf_size inp - read_cursor inp;
                       tail = mem_read m (read_cursor inp) end_size;
                       m1 = m(nat term_addr := 0)
                   in extract_finish
                        (Some \<lparr>buf = tail @ mem_read m1 0 start_size,
                               buf_len = start_size + end_size, should_free = 1\<rparr>)
                        (conn\<lparr>input := inp\<lparr>buffer := Some m1, read_cursor := start_size\<rparr>\<rparr>))
              | None \<Rightarrow> extract_finish None conn))
      else
        (case memchr m (read_cursor inp) terminator (write_cursor inp - read_cursor inp) of
           Some term_addr \<Rightarrow>
             (let len = term_addr - read_cursor inp + 1;
                  m1 = m(nat term_addr := 0)
              in extract_finish
                   (Some \<lparr>buf = mem_read m1 (read_cursor inp) len, buf_len = len, should_free = 0\<rparr>)
                   (conn\<lparr>input := inp\<lparr>buffer := Some m1, read_cursor := term_addr + 1\<rparr>\<rparr>))
         | None \<Rightarrow> extract_finish None conn))"

text \<open>
  The cursors of a ring address its allocation: each lies between 0 and
  \<^verbatim>\<open>buf_size\<close>, and the buffer is allocated.
\<close>

definition ring_ok :: "circular_buffer \<Rightarrow> bool" where
  "ring_ok b \<longleftrightarrow>
     buffer b \<noteq> None \<and> 0 \<le> read_cursor b \<and> read_cursor b \<le> buf_size b \<and>
     0 \<le> write_cursor b \<and> write_cursor b \<le> buf_size b"

text \<open>
  What a successful extraction at logical offset \<open>p\<close> of the content returns: 0, a
  buffer of \<open>p + 1\<close> bytes that holds the content before the terminator and a null
  byte, and a connection that differs in its input ring only, whose readable content
  is what followed the terminator.
\<close>

definition frame_of :: "byte list \<Rightarrow> nat \<Rightarrow> conn_info \<Rightarrow> int \<times> extract_out option \<times> conn_info \<Rightarrow> bool" where
  "frame_of content p conn res \<longleftrightarrow>
     (case res of (ret, out, conn') \<Rightarrow>
        ret = 0 \<and>
        (case out of None \<Rightarrow> False
         | Some e \<Rightarrow> buf_len e = int p + 1 \<and> buf e = take p content @ [0]) \<and>
        readable (input conn') = drop (Suc p) content \<and>
        conn' = conn\<lparr>input := input conn'\<rparr>)"

section \<open>Growing and writing\<close>

text \<open>
  \<^verbatim>\<open>circbuf_grow_buf\<close>. The new size is computed as
  \<^verbatim>\<open>int new_size = buf->buf_size * CONN_BUF_MULTIPLIER * sizeof(char)\<close>. When the
  product does not fit an \<^verbatim>\<open>int\<close> the C code calls \<^verbatim>\<open>malloc\<close> with a wrapped
  size and copies the old content into whatever comes back; the model stops there with
  \<open>None\<close>. Below that bound the allocation is taken to succeed (the code does not test
  it), and the new block starts out as \<open>fresh\<close>.
\<close>

definition circbuf_grow_buf :: "block \<Rightarrow> circular_buffer \<Rightarrow> circular_buffer option" where
  "circbuf_grow_buf fresh b =
     (let new_size = buf_size b * CONN_BUF_MULTIPLIER; m = the (buffer b) in
      if new_size \<ge> 2 ^ 31 then None
      else if write_cursor b < read_cursor b then
        (let bytes_written = buf_size b - read_cursor b;
             new_buf = memcpy_block fresh 0 m (read_cursor b) bytes_written;
             new_buf = memcpy_block new_buf bytes_written m 0 (write_cursor b);
             bytes_written = bytes_written + write_cursor b
         in Some (b\<lparr>buffer := Some new_buf, buf_size := new_size,
                    read_cursor := 0, write_cursor := bytes_written\<rparr>))
      else
        (let bytes_written = write_cursor b - read_cursor b;
             new_buf = memcpy_block fresh 0 m (read_cursor b) bytes_written
         in Some (b\<lparr>buffer := Some new_buf, buf_size := new_size,
                    read_cursor := 0, write_cursor := bytes_written\<rparr>)))"

text \<open>
  The loop at the head of \<^verbatim>\<open>circbuf_write\<close>:
  \<^verbatim>\<open>while (avail < bytes) { circbuf_grow_buf(buf); avail = circbuf_avail_buf(buf); }\<close>.
  On a ring of size 0 the C loop does not end; here that is the value \<open>None\<close>.
\<close>

partial_function (option) circbuf_write_grow ::
  "block \<Rightarrow> circular_buffer \<Rightarrow> int \<Rightarrow> circular_buffer option" where
  "circbuf_write_grow fresh b bytes =
     (if circbuf_avail_buf b < bytes
      then (case circbuf_grow_buf fresh b of
              None \<Rightarrow> None
            | Some b1 \<Rightarrow> circbuf_write_grow fresh b1 bytes)
      else Some b)"

declare circbuf_write_grow.simps [code]

text \<open>
  \<^verbatim>\<open>circbuf_write(buf, in, bytes)\<close>: the return value, always 0, and the ring.
  \<^verbatim>\<open>end_size\<close> is computed in \<^verbatim>\<open>uint32_t\<close>. In the last branch both copies
  read from the start of \<^verbatim>\<open>in\<close>, as the C code does.
\<close>

definition circbuf_write ::
  "block \<Rightarrow> circular_buffer \<Rightarrow> byte list \<Rightarrow> int \<Rightarrow> (int \<times> circular_buffer) option" where
  "circbuf_write fresh b0 inp bytes =
     (case circbuf_write_grow fresh b0 bytes of
        None \<Rightarrow> None
      | Some b \<Rightarrow>
          (let m = the (buffer b) in
           if write_cursor b < read_cursor b then
             Some (0, b\<lparr>buffer := Some (memcpy m (write_cursor b) inp 0 bytes),
                        write_cursor := write_cursor b + bytes\<rparr>)
           else
             (let end_size = (buf_size b - write_cursor b) mod 2 ^ 32 in
              if end_size \<ge> bytes then
                Some (0, b\<lparr>buffer := Some (memcpy m (write_cursor b) inp 0 bytes),
                           write_cursor := write_cursor b + bytes\<rparr>)
              else
                (let m1 = memcpy m (write_cursor b) inp 0 end_size;
                     m2 = memcpy m1 0 inp 0 (bytes - end_size)
                 in Some (0, b\<lparr>buffer := Some m2, write_cursor := bytes - end_size\<rparr>)))))"

section \<open>Sequences of ring operations\<close>

text \<open>
  The ring of a connection record that \<^verbatim>\<open>calloc\<close> has just returned, and the ring
  after \<^verbatim>\<open>init_circular_buffer\<close>.
\<close>

definition calloc_ring :: circular_buffer where
  "calloc_ring = \<lparr>write_cursor = 0, read_cursor = 0, buf_size = 0, buffer = None\<rparr>"

definition new_ring :: "block \<Rightarrow> circular_buffer" where
  "new_ring fresh = init_circular_buffer fresh calloc_ring"

text \<open>
  The operations by which the core moves bytes through a ring: \<^verbatim>\<open>circbuf_write\<close> of
  a byte array, \<^verbatim>\<open>circbuf_advance_write\<close> after a \<^verbatim>\<open>readv\<close> and
  \<^verbatim>\<open>circbuf_advance_read\<close> after a \<^verbatim>\<open>writev\<close>.
\<close>

datatype ring_op = Write_bytes "byte list" | Advance_write int | Advance_read int

fun ring_step :: "block \<Rightarrow> circular_buffer \<Rightarrow> ring_op \<Rightarrow> circular_buffer option" where
  "ring_step fresh b (Write_bytes xs) = map_option snd (circbuf_write fresh b xs (int (length xs)))"
| "ring_step fresh b (Advance_write n) = circbuf_advance_write b n"
| "ring_step fresh b (Advance_read n) = circbuf_advance_read b n"

fun ring_run :: "block \<Rightarrow> circular_buffer \<Rightarrow> ring_op list \<Rightarrow> circular_buffer option" where
  "ring_run fresh b [] = Some b"
| "ring_run fresh b (x # xs) =
     (case ring_step fresh b x of None \<Rightarrow> None | Some b1 \<Rightarrow> ring_run fresh b1 xs)"

text \<open>
  The bytes that leave a ring during a run: each \<open>Advance_read n\<close> stands for a
  \<^verbatim>\<open>writev\<close> over \<^verbatim>\<open>circbuf_setup_writev_iovec\<close> that transmitted the first
  \<open>n\<close> bytes of the vectors. The result is the transmitted bytes, in order, and the
  ring at the end.
\<close>

fun ring_drain ::
  "block \<Rightarrow> circular_buffer \<Rightarrow> ring_op list \<Rightarrow> (byte list \<times> circular_buffer) option" where
  "ring_drain fresh b [] = Some ([], b)"
| "ring_drain fresh b (x # xs) =
     (case ring_step fresh b x of
        None \<Rightarrow> None
      | Some b1 \<Rightarrow>
          (case ring_drain fresh b1 xs of
             None \<Rightarrow> None
           | Some (sent, b2) \<Rightarrow>
               Some ((case x of Advance_read n \<Rightarrow> take (nat n) (readable b) | _ \<Rightarrow> []) @ sent, b2)))"

text \<open>The bytes written during a run, in order.\<close>

fun ring_written :: "ring_op list \<Rightarrow> byte list" where
  "ring_written [] = []"
| "ring_written (Write_bytes xs # ops) = xs @ ring_written ops"
| "ring_written (_ # ops) = ring_written ops"

text \<open>
  The consistency the ring is meant to keep: both cursors within
  \<open>0 \<le> cursor < buf_size\<close>, and the free space and the readable length adding up
  to the capacity less the one reserved slot.
\<close>

definition ring_consistent :: "circular_buffer \<Rightarrow> bool" where
  "ring_consistent b \<longleftrightarrow>
     0 \<le> read_cursor b \<and> read_cursor b < buf_size b \<and>
     0 \<le> write_cursor b \<and> write_cursor b < buf_size b \<and>
     circbuf_avail_buf b + int (length (readable b)) = buf_size b - 1"

section \<open>The networking state\<close>

text \<open>
  The locks of the core: \<^verbatim>\<open>leader_lock\<close>, \<^verbatim>\<open>event_lock\<close> and \<^verbatim>\<open>conns_lock\<close>
  of \<^verbatim>\<open>struct bloom_networking\<close>, and the \<^verbatim>\<open>output_lock\<close> of a connection,
  named by the connection's descriptor.
\<close>

datatype lock = Leader_lock | Event_lock | Conns_lock | Output_lock int

datatype lock_op = Acquire lock | Release lock

text \<open>
  A pointer to a watcher: the two listeners of the networking state, or the read or
  write watcher of the connection on a descriptor (the connection table holds one
  record per descriptor).
\<close>

datatype watcher_ref = Tcp_listener | Udp_listener | Client_watcher int | Write_watcher int

datatype ASYNC_EVENT_TYPE = EXIT | SCHEDULE_WATCHER

text \<open>\<^verbatim>\<open>struct async_event\<close>; the list \<^verbatim>\<open>netconf->events\<close> is a list of these.\<close>

record async_event =
  event_type :: ASYNC_EVENT_TYPE
  watcher :: "watcher_ref option"

text \<open>The system calls whose effect lies outside the modelled state.\<close>

datatype syscall = Sys_writev int "byte list" | Sys_close int

text \<open>
  \<^verbatim>\<open>struct bloom_networking\<close>. \<^verbatim>\<open>async_pending\<close> is set by
  \<^verbatim>\<open>ev_async_send(&netconf->loop_async)\<close> and \<^verbatim>\<open>loop_break\<close> by
  \<^verbatim>\<open>ev_break\<close>. Three fields are not in the C structure: \<^verbatim>\<open>lock_trace\<close> records
  every lock and unlock in the order the code performs them, \<^verbatim>\<open>syscalls\<close> the bytes
  each \<^verbatim>\<open>writev\<close> transmitted and the descriptors closed, and \<^verbatim>\<open>ev_run_calls\<close>
  counts the calls of \<^verbatim>\<open>ev_run\<close>.
\<close>

record bloom_networking =
  should_run :: int
  tcp_client :: ev_io
  udp_client :: ev_io
  async_pending :: bool
  loop_break :: bool
  events :: "async_event list"
  num_threads :: int
  threads :: "nat list"
  conn_list_size :: int
  conns :: "conn_info option list"
  lock_trace :: "lock_op list"
  syscalls :: "syscall list"
  ev_run_calls :: nat

definition LOCK :: "lock \<Rightarrow> bloom_networking \<Rightarrow> bloom_networking" where
  "LOCK l nc = nc\<lparr>lock_trace := lock_trace nc @ [Acquire l]\<rparr>"

definition UNLOCK :: "lock \<Rightarrow> bloom_networking \<Rightarrow> bloom_networking" where
  "UNLOCK l nc = nc\<lparr>lock_trace := lock_trace nc @ [Release l]\<rparr>"

text \<open>
  \<^verbatim>\<open>schedule_async(netconf, event_type, watcher)\<close>: the new event becomes the head
  of the list, under the event lock, and the async watcher is signalled.
\<close>

definition schedule_async ::
  "bloom_networking \<Rightarrow> ASYNC_EVENT_TYPE \<Rightarrow> watcher_ref option \<Rightarrow> bloom_networking" where
  "schedule_async netconf et w =
     (let event = \<lparr>event_type = et, watcher = w\<rparr>;
          nc1 = LOCK Event_lock netconf;
          nc2 = nc1\<lparr>events := event # events nc1\<rparr>;
          nc3 = UNLOCK Event_lock nc2
      in nc3\<lparr>async_pending := True\<rparr>)"

text \<open>The pointers \<^verbatim>\<open>&conn->client\<close> and \<^verbatim>\<open>&conn->write_client\<close>.\<close>

definition client_ref :: "conn_info \<Rightarrow> watcher_ref" where
  "client_ref conn = Client_watcher (fd (client conn))"

definition write_client_ref :: "conn_info \<Rightarrow> watcher_ref" where
  "write_client_ref conn = Write_watcher (fd (write_client conn))"

definition output_lock :: "conn_info \<Rightarrow> lock" where
  "output_lock conn = Output_lock (fd (client conn))"

text \<open>
  \<^verbatim>\<open>close_client_connection(conn)\<close>: no more scheduling, both watchers stopped,
  both rings reset, the descriptor closed.
\<close>

definition close_client_connection ::
  "conn_info \<Rightarrow> bloom_networking \<Rightarrow> conn_info \<times> bloom_networking" where
  "close_client_connection conn netconf =
     (conn\<lparr>should_schedule := 0,
            client := (client conn)\<lparr>active := False\<rparr>,
            write_client := (write_client conn)\<lparr>active := False\<rparr>,
            input := circbuf_reset (input conn),
            output := circbuf_reset (output conn)\<rparr>,
      netconf\<lparr>syscalls := syscalls netconf @ [Sys_close (fd (client conn))]\<rparr>)"

section \<open>Sending a response\<close>

text \<open>
  What a \<^verbatim>\<open>writev\<close> call comes back with: the return value and, when that is -1,
  \<^verbatim>\<open>errno\<close>.
\<close>

datatype errno = EAGAIN | EINTR | EWOULDBLOCK | EPIPE | ECONNRESET

type_synonym sys_result = "int \<times> errno"

text \<open>The bytes a \<^verbatim>\<open>writev\<close> that returned \<open>ret\<close> transmitted of the bytes offered.\<close>

definition transmitted :: "int \<Rightarrow> byte list \<Rightarrow> byte list" where
  "transmitted ret offered = take (nat ret) offered"

text \<open>
  The first loop of \<^verbatim>\<open>send_client_response_direct\<close>:
  \<^verbatim>\<open>total_bytes += buf_sizes[i]\<close> for \<open>i < num_bufs\<close>.
\<close>

definition total_bytes :: "int list \<Rightarrow> int \<Rightarrow> int" where
  "total_bytes buf_sizes num_bufs = sum_list (map (\<lambda>i. buf_sizes ! i) [0..<nat num_bufs])"

text \<open>The bytes the vectors of \<^verbatim>\<open>send_client_response_direct\<close> describe.\<close>

definition offered_bytes :: "byte list list \<Rightarrow> int list \<Rightarrow> int \<Rightarrow> byte list" where
  "offered_bytes response_buffers buf_sizes num_bufs =
     concat (map (\<lambda>i. take (nat (buf_sizes ! i)) (response_buffers ! i)) [0..<nat num_bufs])"

text \<open>
  \<^verbatim>\<open>
  for (index; index < num_bufs; index++) {
      skip_bytes += buf_sizes[index];
      if (skip_bytes > sent) {
          if (index == 0) {
              skip_bytes = 0;
          } else {
              skip_bytes -= buf_sizes[index];
              index--;
          }
          break;
      }
  }
  \<close>
  The result is \<open>(index, skip_bytes)\<close> after the loop.
\<close>

function left_off :: "int list \<Rightarrow> int \<Rightarrow> int \<Rightarrow> int \<Rightarrow> int \<Rightarrow> int \<times> int" where
  "left_off buf_sizes num_bufs sent index skip_bytes =
     (if index < num_bufs then
        (let skip1 = skip_bytes + buf_sizes ! nat index in
         if skip1 > sent then
           (if index = 0 then (index, 0) else (index - 1, skip1 - buf_sizes ! nat index))
         else left_off buf_sizes num_bufs sent (index + 1) skip1)
      else (index, skip_bytes))"
  by pat_completeness auto
termination
  by (relation "measure (\<lambda>(buf_sizes, num_bufs, sent, index, skip_bytes). nat (num_bufs - index))") auto

text \<open>
  \<^verbatim>\<open>
  for (int i=index; i < num_bufs; i++) {
      offset = 0;
      if (i == index && skip_bytes < sent) {
          offset = sent - skip_bytes;
      }
      res = circbuf_write(&conn->output, response_buffers[i] + offset, buf_sizes[i] - offset);
      if (res) return 1;
  }
  \<close>
  The result is 1 with the ring where the function returns from inside the loop, and
  0 with the ring after the loop otherwise. The length is converted to \<^verbatim>\<open>uint64_t\<close>.
\<close>

function copy_unsent ::
  "block \<Rightarrow> circular_buffer \<Rightarrow> byte list list \<Rightarrow> int list \<Rightarrow> int \<Rightarrow> int \<Rightarrow> int \<Rightarrow> int \<Rightarrow> int \<Rightarrow>
   (int \<times> circular_buffer) option" where
  "copy_unsent fresh out response_buffers buf_sizes num_bufs index skip_bytes sent i =
     (if i < num_bufs then
        (let offset = (if i = index \<and> skip_bytes < sent then sent - skip_bytes else 0) in
         case circbuf_write fresh out (drop (nat offset) (response_buffers ! nat i))
                ((buf_sizes ! nat i - offset) mod 2 ^ 64) of
           None \<Rightarrow> None
         | Some (res, out1) \<Rightarrow>
             if res \<noteq> 0 then Some (1, out1)
             else copy_unsent fresh out1 response_buffers buf_sizes num_bufs index skip_bytes sent (i + 1))
      else Some (0, out))"
  by pat_completeness auto
termination
  by (relation "measure (\<lambda>(fresh, out, response_buffers, buf_sizes, num_bufs, index, skip_bytes, sent, i).
        nat (num_bufs - i))") auto

text \<open>
  \<^verbatim>\<open>send_client_response_direct\<close>, given what \<^verbatim>\<open>writev\<close> comes back with. The
  function takes no lock of its own; \<^verbatim>\<open>schedule_async\<close> takes the event lock.
\<close>

definition send_client_response_direct ::
  "block \<Rightarrow> conn_info \<Rightarrow> bloom_networking \<Rightarrow> byte list list \<Rightarrow> int list \<Rightarrow> int \<Rightarrow> sys_result \<Rightarrow>
   (int \<times> conn_info \<times> bloom_networking) option" where
  "send_client_response_direct fresh conn netconf response_buffers buf_sizes num_bufs wr =
     (let total = total_bytes buf_sizes num_bufs;
          sent = fst wr;
          nc1 = netconf\<lparr>syscalls := syscalls netconf @
                  [Sys_writev (fd (client conn))
                     (transmitted sent (offered_bytes response_buffers buf_sizes num_bufs))]\<rparr>
      in if sent = total then Some (0, conn, nc1)
         else if sent = - 1 \<and> snd wr \<noteq> EAGAIN \<and> snd wr \<noteq> EINTR \<and> snd wr \<noteq> EWOULDBLOCK
         then (let (conn1, nc2) = close_client_connection conn nc1 in Some (1, conn1, nc2))
         else
           (let (index, skip_bytes) = left_off buf_sizes num_bufs sent 0 0 in
            case copy_unsent fresh (output conn) response_buffers buf_sizes num_bufs
                   index skip_bytes sent index of
              None \<Rightarrow> None
            | Some (res, out1) \<Rightarrow>
                if res \<noteq> 0 then Some (1, conn\<lparr>output := out1\<rparr>, nc1)
                else
                  (let conn1 = conn\<lparr>output := out1, use_write_buf := 1\<rparr>
                   in Some (0, conn1,
                            schedule_async nc1 SCHEDULE_WATCHER (Some (write_client_ref conn1))))))"

text \<open>
  The loop of \<^verbatim>\<open>send_client_response_buffered\<close>:
  \<^verbatim>\<open>res = circbuf_write(&conn->output, response_buffers[i], buf_sizes[i]); if (res) break;\<close>
\<close>

function copy_buffers ::
  "block \<Rightarrow> circular_buffer \<Rightarrow> byte list list \<Rightarrow> int list \<Rightarrow> int \<Rightarrow> int \<Rightarrow>
   (int \<times> circular_buffer) option" where
  "copy_buffers fresh out response_buffers buf_sizes num_bufs i =
     (if i < num_bufs then
        (case circbuf_write fresh out (response_buffers ! nat i) ((buf_sizes ! nat i) mod 2 ^ 64) of
           None \<Rightarrow> None
         | Some (res, out1) \<Rightarrow>
             if res \<noteq> 0 then Some (res, out1)
             else copy_buffers fresh out1 response_buffers buf_sizes num_bufs (i + 1))
      else Some (0, out))"
  by pat_completeness auto
termination
  by (relation "measure (\<lambda>(fresh, out, response_buffers, buf_sizes, num_bufs, i). nat (num_bufs - i))")
    auto

definition send_client_response_buffered ::
  "block \<Rightarrow> conn_info \<Rightarrow> bloom_networking \<Rightarrow> byte list list \<Rightarrow> int list \<Rightarrow> int \<Rightarrow> sys_result \<Rightarrow>
   (int \<times> conn_info \<times> bloom_networking) option" where
  "send_client_response_buffered fresh conn netconf response_buffers buf_sizes num_bufs wr =
     (let nc1 = LOCK (output_lock conn) netconf in
      if use_write_buf conn = 0 then
        send_client_response_direct fresh conn (UNLOCK (output_lock conn) nc1)
          response_buffers buf_sizes num_bufs wr
      else
        (case copy_buffers fresh (output conn) response_buffers buf_sizes num_bufs 0 of
           None \<Rightarrow> None
         | Some (res, out1) \<Rightarrow>
             Some (res, conn\<lparr>output := out1\<rparr>, UNLOCK (output_lock conn) nc1)))"

text \<open>\<^verbatim>\<open>send_client_response(conn, response_buffers, buf_sizes, num_bufs)\<close>.\<close>

definition send_client_response ::
  "block \<Rightarrow> conn_info \<Rightarrow> bloom_networking \<Rightarrow> byte list list \<Rightarrow> int list \<Rightarrow> int \<Rightarrow> sys_result \<Rightarrow>
   (int \<times> conn_info \<times> bloom_networking) option" where
  "send_client_response fresh conn netconf response_buffers buf_sizes num_bufs wr =
     (if num_bufs \<le> 0 then Some (0, conn, netconf)
      else if use_write_buf conn \<noteq> 0
      then send_client_response_buffered fresh conn netconf response_buffers buf_sizes num_bufs wr
      else send_client_response_direct fresh conn netconf response_buffers buf_sizes num_bufs wr)"

section \<open>The write watcher\<close>

text \<open>
  \<^verbatim>\<open>handle_client_writebuf(watch, data)\<close>, given the connection \<^verbatim>\<open>watch->data\<close>
  and what \<^verbatim>\<open>writev\<close> over the vectors of the output ring comes back with. The whole
  body runs under the connection's output lock.
\<close>

definition handle_client_writebuf ::
  "watcher_ref \<Rightarrow> conn_info \<Rightarrow> bloom_networking \<Rightarrow> sys_result \<Rightarrow>
   (int \<times> conn_info \<times> bloom_networking) option" where
  "handle_client_writebuf watch conn netconf wr =
     (let nc1 = LOCK (output_lock conn) netconf;
          write_bytes = fst wr;
          nc2 = nc1\<lparr>syscalls := syscalls nc1 @
                  [Sys_writev (fd (client conn)) (transmitted write_bytes (readable (output conn)))]\<rparr>
      in case (if write_bytes = 0 then
                 (let (c, n) = close_client_connection conn nc2 in Some (0::int, c, n))
               else if write_bytes = - 1 then
                 (if snd wr \<noteq> EAGAIN \<and> snd wr \<noteq> EINTR then
                    (let (c, n) = close_client_connection conn nc2 in Some (0, c, n))
                  else Some (1, conn, nc2))
               else
                 (case circbuf_advance_read (output conn) write_bytes of
                    None \<Rightarrow> None
                  | Some out1 \<Rightarrow> Some (1, conn\<lparr>output := out1\<rparr>, nc2))) of
           None \<Rightarrow> None
         | Some (reschedule, conn1, nc3) \<Rightarrow>
             (let (conn2, nc4) =
                    (if read_cursor (output conn1) = write_cursor (output conn1)
                     then (conn1\<lparr>use_write_buf := 0\<rparr>, nc3)
                     else if reschedule \<noteq> 0
                     then (conn1, schedule_async nc3 SCHEDULE_WATCHER (Some watch))
                     else (conn1, nc3))
              in Some (0, conn2, UNLOCK (output_lock conn) nc4)))"

declare left_off.simps [simp del]
declare copy_unsent.simps [simp del]
declare copy_buffers.simps [simp del]

section \<open>The connection table and new clients\<close>

definition INIT_CONN_LIST_SIZE :: int where "INIT_CONN_LIST_SIZE = 1024"

text \<open>A connection record as \<^verbatim>\<open>calloc(1, sizeof(conn_info))\<close> returns it.\<close>

definition calloc_conn :: conn_info where
  "calloc_conn =
     \<lparr>client = \<lparr>fd = 0, ev_mask = 0, active = False\<rparr>, should_schedule = 0,
      input = calloc_ring, use_write_buf = 0,
      write_client = \<lparr>fd = 0, ev_mask = 0, active = False\<rparr>,
      output = calloc_ring\<rparr>"

text \<open>
  \<^verbatim>\<open>while (new_size <= client_fd) { new_size *= 2; }\<close> of \<^verbatim>\<open>get_fd_conn\<close>. The
  loop does not end from a size of 0, and the doubling leaves the range of
  \<^verbatim>\<open>int\<close> at \<open>2 ^ 31\<close>; both are \<open>None\<close>.
\<close>

partial_function (option) grow_conn_list :: "int \<Rightarrow> int \<Rightarrow> int option" where
  "grow_conn_list new_size client_fd =
     (if new_size \<le> client_fd
      then (if new_size * 2 \<ge> 2 ^ 31 then None else grow_conn_list (new_size * 2) client_fd)
      else Some new_size)"

declare grow_conn_list.simps [code]

text \<open>
  \<^verbatim>\<open>get_fd_conn(client_fd, netconf)\<close>: the record of the table for the descriptor,
  allocated if the slot is null, after growing the table under \<^verbatim>\<open>conns_lock\<close> if
  the descriptor does not fit. The returned pointer is the record together with the
  state in which the slot holds it.
\<close>

definition get_fd_conn ::
  "int \<Rightarrow> bloom_networking \<Rightarrow> (conn_info \<times> bloom_networking) option" where
  "get_fd_conn client_fd netconf =
     (case (if client_fd \<ge> conn_list_size netconf then
              (let nc1 = LOCK Conns_lock netconf in
               case grow_conn_list (2 * conn_list_size nc1) client_fd of
                 None \<Rightarrow> None
               | Some new_size \<Rightarrow>
                   Some (UNLOCK Conns_lock
                     (nc1\<lparr>conns := take (nat (conn_list_size nc1)) (conns nc1) @
                                      replicate (nat (new_size - conn_list_size nc1)) None,
                           conn_list_size := new_size\<rparr>)))
            else Some netconf) of
        None \<Rightarrow> None
      | Some nc2 \<Rightarrow>
          (case conns nc2 ! nat client_fd of
             Some conn \<Rightarrow> Some (conn, nc2)
           | None \<Rightarrow>
               Some (calloc_conn, nc2\<lparr>conns := (conns nc2)[nat client_fd := Some calloc_conn]\<rparr>)))"

text \<open>
  \<^verbatim>\<open>set_client_sockopts(client_fd)\<close>, given what the two \<^verbatim>\<open>fcntl\<close> calls return.
  A failing \<^verbatim>\<open>setsockopt\<close> is only logged.
\<close>

definition set_client_sockopts ::
  "int \<Rightarrow> int \<Rightarrow> int \<Rightarrow> bloom_networking \<Rightarrow> int \<times> bloom_networking" where
  "set_client_sockopts client_fd sock_flags setfl_res netconf =
     (if sock_flags < 0 \<or> setfl_res \<noteq> 0
      then (1, netconf\<lparr>syscalls := syscalls netconf @ [Sys_close client_fd]\<rparr>)
      else (0, netconf))"

text \<open>
  \<^verbatim>\<open>handle_new_client(listen_fd, data)\<close>, given the descriptor \<^verbatim>\<open>accept\<close> returns
  and the results of \<^verbatim>\<open>fcntl\<close>. The record obtained from the table is initialised in
  place: it is stored back into its slot.
\<close>

definition handle_new_client ::
  "block \<Rightarrow> int \<Rightarrow> bloom_networking \<Rightarrow> int \<Rightarrow> int \<Rightarrow> int \<Rightarrow> bloom_networking option" where
  "handle_new_client fresh listen_fd netconf client_fd sock_flags setfl_res =
     (if client_fd = - 1 then Some netconf
      else
        (let (res, nc1) = set_client_sockopts client_fd sock_flags setfl_res netconf in
         if res \<noteq> 0 then Some nc1
         else
           (case get_fd_conn client_fd nc1 of
              None \<Rightarrow> None
            | Some (conn, nc2) \<Rightarrow>
                (let conn1 = conn\<lparr>input := init_circular_buffer fresh (input conn)\<rparr>;
                     conn2 = conn1\<lparr>output := init_circular_buffer fresh (output conn1)\<rparr>;
                     conn3 = conn2\<lparr>client := \<lparr>fd = client_fd, ev_mask = EV_READ, active = False\<rparr>\<rparr>;
                     conn4 = conn3\<lparr>write_client :=
                                      \<lparr>fd = client_fd, ev_mask = EV_WRITE, active = False\<rparr>\<rparr>;
                     conn5 = conn4\<lparr>should_schedule := 1\<rparr>;
                     nc3 = nc2\<lparr>conns := (conns nc2)[nat client_fd := Some conn5]\<rparr>
                 in Some (schedule_async nc3 SCHEDULE_WATCHER (Some (client_ref conn5)))))))"

section \<open>The event loop callbacks\<close>

text \<open>\<^verbatim>\<open>worker_ev_userdata\<close>; its \<^verbatim>\<open>netconf\<close> pointer is the state passed along.\<close>

record worker_ev_userdata =
  ud_watcher :: "watcher_ref option"
  ready_events :: int

text \<open>
  Starting and stopping the watcher a pointer refers to. The watchers of a connection
  live in its record in the table.
\<close>

definition update_conn :: "int \<Rightarrow> (conn_info \<Rightarrow> conn_info) \<Rightarrow> bloom_networking \<Rightarrow> bloom_networking" where
  "update_conn d f netconf =
     (if 0 \<le> d \<and> nat d < length (conns netconf) then
        (case conns netconf ! nat d of
           None \<Rightarrow> netconf
         | Some c \<Rightarrow> netconf\<lparr>conns := (conns netconf)[nat d := Some (f c)]\<rparr>)
      else netconf)"

definition set_active :: "watcher_ref \<Rightarrow> bool \<Rightarrow> bloom_networking \<Rightarrow> bloom_networking" where
  "set_active w a netconf =
     (case w of
        Tcp_listener \<Rightarrow> netconf\<lparr>tcp_client := (tcp_client netconf)\<lparr>active := a\<rparr>\<rparr>
      | Udp_listener \<Rightarrow> netconf\<lparr>udp_client := (udp_client netconf)\<lparr>active := a\<rparr>\<rparr>
      | Client_watcher d \<Rightarrow> update_conn d (\<lambda>c. c\<lparr>client := (client c)\<lparr>active := a\<rparr>\<rparr>) netconf
      | Write_watcher d \<Rightarrow>
          update_conn d (\<lambda>c. c\<lparr>write_client := (write_client c)\<lparr>active := a\<rparr>\<rparr>) netconf)"

definition ev_io_start :: "watcher_ref \<Rightarrow> bloom_networking \<Rightarrow> bloom_networking" where
  "ev_io_start w netconf = set_active w True netconf"

definition ev_io_stop :: "watcher_ref \<Rightarrow> bloom_networking \<Rightarrow> bloom_networking" where
  "ev_io_stop w netconf = set_active w False netconf"

text \<open>\<^verbatim>\<open>prepare_event(watcher, revents)\<close>: record the event and stop the watcher.\<close>

definition prepare_event ::
  "watcher_ref \<Rightarrow> int \<Rightarrow> worker_ev_userdata \<times> bloom_networking \<Rightarrow>
   worker_ev_userdata \<times> bloom_networking" where
  "prepare_event w revents s =
     (case s of (data, netconf) \<Rightarrow>
        (data\<lparr>ud_watcher := Some w, ready_events := revents\<rparr>, ev_io_stop w netconf))"

text \<open>
  The loop of \<^verbatim>\<open>handle_async_event\<close> over the pending events, and the function: the
  event lock is held from before the first event to after the last.
\<close>

fun drain_events :: "async_event list \<Rightarrow> bloom_networking \<Rightarrow> bloom_networking" where
  "drain_events [] netconf = netconf"
| "drain_events (e # es) netconf =
     drain_events es
       (case event_type e of
          EXIT \<Rightarrow> netconf\<lparr>loop_break := True\<rparr>
        | SCHEDULE_WATCHER \<Rightarrow>
            (case watcher e of None \<Rightarrow> netconf | Some w \<Rightarrow> ev_io_start w netconf))"

definition handle_async_event :: "bloom_networking \<Rightarrow> bloom_networking" where
  "handle_async_event netconf =
     (let nc1 = LOCK Event_lock netconf;
          nc2 = drain_events (events nc1) nc1;
          nc3 = nc2\<lparr>events := []\<rparr>
      in UNLOCK Event_lock nc3)"

text \<open>
  \<^verbatim>\<open>ev_run(EVRUN_ONCE)\<close>: the loop invokes the callbacks of the watchers that are
  ready, which are \<^verbatim>\<open>prepare_event\<close> for an I/O watcher and
  \<^verbatim>\<open>handle_async_event\<close> for the async watcher. Which watchers are ready is given.
\<close>

datatype loop_callback = Io_ready watcher_ref int | Async_ready

fun run_callbacks ::
  "loop_callback list \<Rightarrow> worker_ev_userdata \<times> bloom_networking \<Rightarrow>
   worker_ev_userdata \<times> bloom_networking" where
  "run_callbacks [] s = s"
| "run_callbacks (Io_ready w revents # cbs) s = run_callbacks cbs (prepare_event w revents s)"
| "run_callbacks (Async_ready # cbs) s =
     run_callbacks cbs (fst s, handle_async_event ((snd s)\<lparr>async_pending := False\<rparr>))"

definition ev_run_once ::
  "loop_callback list \<Rightarrow> worker_ev_userdata \<times> bloom_networking \<Rightarrow>
   worker_ev_userdata \<times> bloom_networking" where
  "ev_run_once cbs s =
     run_callbacks cbs (fst s, (snd s)\<lparr>ev_run_calls := Suc (ev_run_calls (snd s))\<rparr>)"

section \<open>Reading from a client\<close>

text \<open>The bytes \<^verbatim>\<open>readv\<close> stores, vector by vector.\<close>

fun scatter :: "block \<Rightarrow> (int \<times> int) list \<Rightarrow> byte list \<Rightarrow> block" where
  "scatter m [] d = m"
| "scatter m ((base, len) # vs) d =
     scatter (memcpy m base d 0 (min len (int (length d)))) vs (drop (nat len) d)"

text \<open>
  \<^verbatim>\<open>handle_client_data(watch, data)\<close>, given the connection \<^verbatim>\<open>watch->data\<close>, what
  \<^verbatim>\<open>readv\<close> returns and the bytes it read. The free space is held in an
  \<^verbatim>\<open>int\<close> and compared with \<^verbatim>\<open>buf_size / 2\<close> as unsigned. After a return of 0
  from \<^verbatim>\<open>readv\<close> the connection is closed and the function goes on to
  \<^verbatim>\<open>circbuf_advance_write\<close>.
\<close>

definition handle_client_data ::
  "block \<Rightarrow> conn_info \<Rightarrow> bloom_networking \<Rightarrow> sys_result \<Rightarrow> byte list \<Rightarrow>
   (int \<times> conn_info \<times> bloom_networking) option" where
  "handle_client_data fresh conn netconf rr incoming =
     (case (if circbuf_avail_buf (input conn) mod 2 ^ 32 < buf_size (input conn) div 2
            then circbuf_grow_buf fresh (input conn) else Some (input conn)) of
        None \<Rightarrow> None
      | Some inp1 \<Rightarrow>
          (let vectors = circbuf_setup_readv_iovec inp1;
               read_bytes = fst rr;
               inp2 = inp1\<lparr>buffer :=
                        Some (scatter (the (buffer inp1)) vectors (take (nat read_bytes) incoming))\<rparr>;
               conn1 = conn\<lparr>input := inp2\<rparr>
           in if read_bytes = - 1 then
                (if snd rr \<noteq> EAGAIN \<and> snd rr \<noteq> EINTR
                 then (let (c, n) = close_client_connection conn1 netconf in Some (1, c, n))
                 else Some (1, conn1, netconf))
              else
                (let (conn2, nc1) =
                       (if read_bytes = 0 then close_client_connection conn1 netconf
                        else (conn1, netconf))
                 in case circbuf_advance_write (input conn2) read_bytes of
                      None \<Rightarrow> None
                    | Some inp3 \<Rightarrow> Some (0, conn2\<lparr>input := inp3\<rparr>, nc1))))"

section \<open>Dispatching an event\<close>

text \<open>
  The request handler \<^verbatim>\<open>handle_client_connect\<close> belongs to another component
  (\<^verbatim>\<open>conn_handler.h\<close>). It reaches the networking state only through the three
  functions the core exports, so here it is the list of the calls it makes, each
  \<^verbatim>\<open>send_client_response\<close> with what its \<^verbatim>\<open>writev\<close> comes back with.
\<close>

datatype api_call =
  Call_extract byte
| Call_send "byte list list" "int list" int sys_result
| Call_close

fun handle_client_connect ::
  "block \<Rightarrow> api_call list \<Rightarrow> conn_info \<Rightarrow> bloom_networking \<Rightarrow> (conn_info \<times> bloom_networking) option" where
  "handle_client_connect fresh [] conn netconf = Some (conn, netconf)"
| "handle_client_connect fresh (Call_extract t # cs) conn netconf =
     handle_client_connect fresh cs (snd (snd (extract_to_terminator conn t))) netconf"
| "handle_client_connect fresh (Call_send bufs sizes n wr # cs) conn netconf =
     (case send_client_response fresh conn netconf bufs sizes n wr of
        None \<Rightarrow> None
      | Some (res, conn1, nc1) \<Rightarrow> handle_client_connect fresh cs conn1 nc1)"
| "handle_client_connect fresh (Call_close # cs) conn netconf =
     (case close_client_connection conn netconf of
        (conn1, nc1) \<Rightarrow> handle_client_connect fresh cs conn1 nc1)"

text \<open>What the handlers of one event are given from outside.\<close>

record handler_env =
  env_accept_fd :: int
  env_sock_flags :: int
  env_setfl :: int
  env_readv :: sys_result
  env_incoming :: "byte list"
  env_writev :: sys_result
  env_request :: "api_call list"

text \<open>\<^verbatim>\<open>watcher->data\<close> of a connection's watcher, with the slot that holds it.\<close>

definition watcher_conn :: "watcher_ref \<Rightarrow> bloom_networking \<Rightarrow> (int \<times> conn_info) option" where
  "watcher_conn w netconf =
     (case w of
        Client_watcher d \<Rightarrow>
          (if 0 \<le> d \<and> nat d < length (conns netconf)
           then map_option (\<lambda>c. (d, c)) (conns netconf ! nat d) else None)
      | Write_watcher d \<Rightarrow>
          (if 0 \<le> d \<and> nat d < length (conns netconf)
           then map_option (\<lambda>c. (d, c)) (conns netconf ! nat d) else None)
      | _ \<Rightarrow> None)"

definition store_conn :: "int \<Rightarrow> conn_info \<Rightarrow> bloom_networking \<Rightarrow> bloom_networking" where
  "store_conn d conn netconf = netconf\<lparr>conns := (conns netconf)[nat d := Some conn]\<rparr>"

text \<open>
  \<^verbatim>\<open>invoke_event_handler(data)\<close>. A handler works on the record
  \<^verbatim>\<open>watcher->data\<close> points to; the record is stored back into its slot when the
  handler is done.
\<close>

definition invoke_event_handler ::
  "block \<Rightarrow> handler_env \<Rightarrow> worker_ev_userdata \<Rightarrow> bloom_networking \<Rightarrow> bloom_networking option" where
  "invoke_event_handler fresh env data netconf =
     (case ud_watcher data of
        None \<Rightarrow> None
      | Some w \<Rightarrow>
          if w = Tcp_listener then
            (case handle_new_client fresh (fd (tcp_client netconf)) netconf
                    (env_accept_fd env) (env_sock_flags env) (env_setfl env) of
               None \<Rightarrow> None
             | Some nc1 \<Rightarrow> Some (schedule_async nc1 SCHEDULE_WATCHER (Some w)))
          else if w = Udp_listener then Some netconf
          else
            (case watcher_conn w netconf of
               None \<Rightarrow> None
             | Some (d, conn) \<Rightarrow>
                 if ready_events data AND EV_WRITE \<noteq> 0 then
                   (case handle_client_writebuf w conn netconf (env_writev env) of
                      None \<Rightarrow> None
                    | Some (res, conn1, nc1) \<Rightarrow> Some (store_conn d conn1 nc1))
                 else
                   (case handle_client_data fresh conn netconf (env_readv env) (env_incoming env) of
                      None \<Rightarrow> None
                    | Some (res, conn1, nc1) \<Rightarrow>
                        (case (if res = 0
                               then handle_client_connect fresh (env_request env) conn1 nc1
                               else Some (conn1, nc1)) of
                           None \<Rightarrow> None
                         | Some (conn2, nc2) \<Rightarrow>
                             (let nc3 = store_conn d conn2 nc2
                              in if should_schedule conn2 \<noteq> 0
                                 then Some (schedule_async nc3 SCHEDULE_WATCHER (Some w))
                                 else Some nc3)))))"

section \<open>The worker loop\<close>

text \<open>
  What one pass of the loop of \<^verbatim>\<open>start_networking_worker\<close> meets: whether another
  thread clears \<^verbatim>\<open>should_run\<close> (the first statement of \<^verbatim>\<open>shutdown_networking\<close>)
  while this one waits for the leader lock, the callbacks \<^verbatim>\<open>ev_run\<close> invokes,
  and what the handlers are given.
\<close>

record iteration_env =
  it_stop :: bool
  it_fired :: "loop_callback list"
  it_handler :: handler_env

datatype loop_exit = Break | Continue

text \<open>
  The part of the loop body that runs under the leader lock, in
  \<^verbatim>\<open>src/bloomd/networking.c\<close>: from \<^verbatim>\<open>pthread_mutex_lock\<close> to the
  \<^verbatim>\<open>pthread_mutex_unlock\<close> before \<^verbatim>\<open>break\<close> or after \<^verbatim>\<open>ev_run\<close>.
\<close>

definition worker_leader_section ::
  "nat \<Rightarrow> iteration_env \<Rightarrow> int \<times> bloom_networking \<Rightarrow>
   loop_exit \<times> worker_ev_userdata \<times> int \<times> bloom_networking" where
  "worker_leader_section tid it s =
     (case s of (registered, netconf) \<Rightarrow>
        (let nc0 = (if it_stop it then netconf\<lparr>should_run := 0\<rparr> else netconf);
             nc1 = LOCK Leader_lock nc0;
             data = \<lparr>ud_watcher = None, ready_events = 0\<rparr>;
             (registered1, nc2) =
               (if registered = 0
                then (1, nc1\<lparr>threads := (threads nc1)[nat (num_threads nc1) := tid],
                           num_threads := num_threads nc1 + 1\<rparr>)
                else (registered, nc1))
         in if should_run nc2 = 0 then (Break, data, registered1, UNLOCK Leader_lock nc2)
            else
              (let (data1, nc3) = ev_run_once (it_fired it) (data, nc2)
               in (Continue, data1, registered1, UNLOCK Leader_lock nc3))))"

text \<open>One pass of the loop body: the leader section, then the handler outside the lock.\<close>

definition worker_iteration ::
  "block \<Rightarrow> nat \<Rightarrow> iteration_env \<Rightarrow> int \<times> bloom_networking \<Rightarrow>
   (loop_exit \<times> int \<times> bloom_networking) option" where
  "worker_iteration fresh tid it s =
     (case worker_leader_section tid it s of
        (Break, data, registered1, nc1) \<Rightarrow> Some (Break, registered1, nc1)
      | (Continue, data, registered1, nc1) \<Rightarrow>
          if ud_watcher data \<noteq> None then
            (case invoke_event_handler fresh (it_handler it) data nc1 of
               None \<Rightarrow> None
             | Some nc2 \<Rightarrow> Some (Continue, registered1, nc2))
          else Some (Continue, registered1, nc1))"

text \<open>
  \<^verbatim>\<open>start_networking_worker(netconf)\<close> over the passes it is given: the result says
  whether the function has returned, or is still in its loop when the given passes
  are used up.
\<close>

datatype worker_status = Returned | Running

fun start_networking_worker ::
  "block \<Rightarrow> nat \<Rightarrow> iteration_env list \<Rightarrow> int \<times> bloom_networking \<Rightarrow>
   (worker_status \<times> bloom_networking) option" where
  "start_networking_worker fresh tid [] s =
     Some (if should_run (snd s) = 0 then Returned else Running, snd s)"
| "start_networking_worker fresh tid (it # its) s =
     (if should_run (snd s) = 0 then Some (Returned, snd s)
      else
        (case worker_iteration fresh tid it s of
           None \<Rightarrow> None
         | Some (Break, registered1, nc1) \<Rightarrow> Some (Returned, nc1)
         | Some (Continue, registered1, nc1) \<Rightarrow>
             start_networking_worker fresh tid its (registered1, nc1)))"

text \<open>
  The leader section of the loop body in the second file that defines
  \<^verbatim>\<open>start_networking_worker\<close> (\<^verbatim>\<open>unnamed/part_000\<close>). There the user data is
  not reset at the start of a pass, \<^verbatim>\<open>invoke_event_handler\<close> is empty and the loop
  has no async watcher; the section is modelled over the same state.
  \<^verbatim>\<open>
        // Check again if we should run
        if (netconf->should_run) {
            pthread_mutex_unlock(&netconf->leader_lock);
            break;
        }
  \<close>
\<close>

definition worker_leader_section_part_000 ::
  "nat \<Rightarrow> iteration_env \<Rightarrow> int \<times> worker_ev_userdata \<times> bloom_networking \<Rightarrow>
   loop_exit \<times> worker_ev_userdata \<times> int \<times> bloom_networking" where
  "worker_leader_section_part_000 tid it s =
     (case s of (registered, data, netconf) \<Rightarrow>
        (let nc0 = (if it_stop it then netconf\<lparr>should_run := 0\<rparr> else netconf);
             nc1 = LOCK Leader_lock nc0;
             (registered1, nc2) =
               (if registered = 0
                then (1, nc1\<lparr>threads := (threads nc1)[nat (num_threads nc1) := tid],
                           num_threads := num_threads nc1 + 1\<rparr>)
                else (registered, nc1))
         in if should_run nc2 \<noteq> 0 then (Break, data, registered1, UNLOCK Leader_lock nc2)
            else
              (let (data1, nc3) = ev_run_once (it_fired it) (data, nc2)
               in (Continue, data1, registered1, UNLOCK Leader_lock nc3))))"

text \<open>
  The first two statements of \<^verbatim>\<open>shutdown_networking\<close>; the rest joins the workers
  and releases the resources.
\<close>

definition shutdown_networking_begin :: "bloom_networking \<Rightarrow> bloom_networking" where
  "shutdown_networking_begin netconf = schedule_async (netconf\<lparr>should_run := 0\<rparr>) EXIT None"

section \<open>Lock nesting\<close>

text \<open>
  A rule says whether a lock may be acquired while the locks of a list are held. A
  trace follows a rule from a list of held locks when every acquisition in it is
  allowed at the moment it happens.
\<close>

fun follows_rule :: "(lock \<Rightarrow> lock list \<Rightarrow> bool) \<Rightarrow> lock list \<Rightarrow> lock_op list \<Rightarrow> bool" where
  "follows_rule rule held [] = True"
| "follows_rule rule held (Acquire l # t) = (rule l held \<and> follows_rule rule (l # held) t)"
| "follows_rule rule held (Release l # t) = follows_rule rule (remove1 l held) t"

fun held_after :: "lock list \<Rightarrow> lock_op list \<Rightarrow> lock list" where
  "held_after held [] = held"
| "held_after held (Acquire l # t) = held_after (l # held) t"
| "held_after held (Release l # t) = held_after (remove1 l held) t"

text \<open>The rule of the specification: no lock is acquired while another is held.\<close>

fun never_nested :: "lock \<Rightarrow> lock list \<Rightarrow> bool" where
  "never_nested l held = (held = [])"

text \<open>
  The rule of the code: only the event lock is acquired while a lock is held, and
  the lock held then is the leader lock or the output lock of a connection.
\<close>

fun event_lock_innermost :: "lock \<Rightarrow> lock list \<Rightarrow> bool" where
  "event_lock_innermost l [] = True"
| "event_lock_innermost l [Leader_lock] = (l = Event_lock)"
| "event_lock_innermost l [Output_lock d] = (l = Event_lock)"
| "event_lock_innermost l held = False"

text \<open>
  A step from one networking state to another keeps the rule of the code, from a list
  of held locks, when the lock operations it adds to the trace follow the rule and
  leave the same locks held.
\<close>

definition keeps_rule :: "lock list \<Rightarrow> bloom_networking \<Rightarrow> bloom_networking \<Rightarrow> bool" where
  "keeps_rule held nc nc' \<longleftrightarrow>
     (\<exists>t. lock_trace nc' = lock_trace nc @ t \<and>
          follows_rule event_lock_innermost held t \<and> held_after held t = held)"

section \<open>Example states\<close>

text \<open>
  An input ring of the initial size whose content wraps: two bytes before the end of
  the allocation and three at its start, with a line feed (10) as the fourth byte.
\<close>

definition wrapped_ring :: circular_buffer where
  "wrapped_ring = \<lparr>write_cursor = 3, read_cursor = 4094, buf_size = 4096,
                    buffer = Some (\<lambda>a. if a = 1 then 10 else 97)\<rparr>"

text \<open>An empty ring whose cursors are equal and not 0.\<close>

definition caught_up_ring :: circular_buffer where
  "caught_up_ring = \<lparr>write_cursor = 7, read_cursor = 7, buf_size = 4096,
                      buffer = Some (\<lambda>a. 97)\<rparr>"

text \<open>An empty ring as \<^verbatim>\<open>init_circular_buffer\<close> leaves it, over a zeroed block.\<close>

definition empty_ring :: circular_buffer where
  "empty_ring = \<lparr>write_cursor = 0, read_cursor = 0, buf_size = 4096, buffer = Some (\<lambda>a. 0)\<rparr>"

text \<open>A connection on descriptor 5 with the given input ring and an empty output ring.\<close>

definition conn_of_input :: "circular_buffer \<Rightarrow> conn_info" where
  "conn_of_input b =
     \<lparr>client = \<lparr>fd = 5, ev_mask = EV_READ, active = False\<rparr>, should_schedule = 1,
      input = b, use_write_buf = 0,
      write_client = \<lparr>fd = 5, ev_mask = EV_WRITE, active = False\<rparr>,
      output = empty_ring\<rparr>"

text \<open>
  The networking state after \<^verbatim>\<open>init_networking\<close>, with listeners on descriptors 3
  and 4, no pending event and an empty connection table of the initial size.
\<close>

definition idle_net :: bloom_networking where
  "idle_net =
     \<lparr>should_run = 1,
      tcp_client = \<lparr>fd = 3, ev_mask = EV_READ, active = True\<rparr>,
      udp_client = \<lparr>fd = 4, ev_mask = EV_READ, active = True\<rparr>,
      async_pending = False, loop_break = False, events = [],
      num_threads = 0, threads = [],
      conn_list_size = INIT_CONN_LIST_SIZE,
      conns = replicate (nat INIT_CONN_LIST_SIZE) None,
      lock_trace = [], syscalls = [], ev_run_calls = 0\<rparr>"

text \<open>
  A connection on descriptor 5 in the direct state, and one in the buffered state
  whose output ring holds the three bytes 1, 2, 3.
\<close>

definition direct_conn :: conn_info where
  "direct_conn = conn_of_input empty_ring"

definition buffered_conn :: conn_info where
  "buffered_conn =
     (conn_of_input empty_ring)
       \<lparr>use_write_buf := 1,
        output := \<lparr>write_cursor = 3, read_cursor = 0, buf_size = 4096,
                   buffer = Some (\<lambda>a. if a < 3 then word_of_nat a + 1 else 0)\<rparr>\<rparr>"

text \<open>
  A table whose slot 5 holds the record of a connection that was closed in the
  buffered state.
\<close>

definition reused_net :: bloom_networking where
  "reused_net =
     idle_net\<lparr>conns := (conns idle_net)[5 := Some (fst (close_client_connection buffered_conn idle_net))]\<rparr>"

text \<open>
  A pass of the worker loop in which no other thread intervenes and the TCP listener
  becomes readable, with a client on descriptor 5 waiting to be accepted.
\<close>

definition accept_env :: handler_env where
  "accept_env =
     \<lparr>env_accept_fd = 5, env_sock_flags = 2, env_setfl = 0,
      env_readv = (0, EAGAIN), env_incoming = [], env_writev = (0, EAGAIN), env_request = []\<rparr>"

definition accept_pass :: iteration_env where
  "accept_pass =
     \<lparr>it_stop = False, it_fired = [Io_ready Tcp_listener EV_READ], it_handler = accept_env\<rparr>"

text \<open>
  A state in which the connection on descriptor 5 is in the buffered state and the
  event that re-arms its write watcher is pending; a pass of the worker loop in which
  the async watcher fires, and one in which the write watcher of descriptor 5 fires
  and \<^verbatim>\<open>writev\<close> transmits two of the three queued bytes.
\<close>

definition busy_net :: bloom_networking where
  "busy_net =
     idle_net\<lparr>conns := (conns idle_net)[5 := Some buffered_conn],
              events := [\<lparr>event_type = SCHEDULE_WATCHER, watcher = Some (Write_watcher 5)\<rparr>],
              async_pending := True\<rparr>"

definition async_pass :: iteration_env where
  "async_pass = \<lparr>it_stop = False, it_fired = [Async_ready], it_handler = accept_env\<rparr>"

definition write_pass :: iteration_env where
  "write_pass =
     \<lparr>it_stop = False, it_fired = [Io_ready (Write_watcher 5) EV_WRITE],
      it_handler = accept_env\<lparr>env_writev := (2, EAGAIN)\<rparr>\<rparr>"

text \<open>
  A run on the connection of descriptor 5, from the direct state with an empty output
  ring: a response of 2 bytes whose \<^verbatim>\<open>writev\<close> fails with \<^verbatim>\<open>EAGAIN\<close>; a firing
  of the write watcher that transmits 1 byte; a response of 4094 bytes, which is
  buffered; and a firing of the write watcher that transmits the 4095 bytes then
  queued. The result is the connection and the networking state before and after
  that last firing.
\<close>

definition drained_run ::
  "(conn_info \<times> bloom_networking \<times> conn_info \<times> bloom_networking) option" where
  "drained_run =
     (case send_client_response (\<lambda>a. 0) direct_conn idle_net [[1, 2]] [2] 1 (- 1, EAGAIN) of
        None \<Rightarrow> None
      | Some (res1, c1, n1) \<Rightarrow>
          (case handle_client_writebuf (Write_watcher 5) c1 n1 (1, EAGAIN) of
             None \<Rightarrow> None
           | Some (res2, c2, n2) \<Rightarrow>
               (case send_client_response (\<lambda>a. 0) c2 n2 [replicate 4094 7] [4094] 1
                       (0, EAGAIN) of
                  None \<Rightarrow> None
                | Some (res3, c3, n3) \<Rightarrow>
                    (case handle_client_writebuf (Write_watcher 5) c3 n3 (4095, EAGAIN) of
                       None \<Rightarrow> None
                     | Some (res4, c4, n4) \<Rightarrow> Some (c3, n3, c4, n4)))))"

section \<open>Properties of the memory primitives\<close>

lemma scan_None_iff: "scan xs t = None \<longleftrightarrow> t \<notin> set xs"
  by (induction xs) auto

lemma scan_SomeD:
  "scan xs t = Some i \<Longrightarrow> i < length xs \<and> xs ! i = t \<and> (\<forall>j<i. xs ! j \<noteq> t)"
proof (induction xs arbitrary: i)
  case Nil
  then show ?case by simp
next
  case (Cons x xs)
  show ?case
  proof (cases "x = t")
    case True
    with Cons.prems show ?thesis by simp
  next
    case False
    with Cons.prems obtain k where k: "scan xs t = Some k" "i = Suc k" by auto
    from Cons.IH [OF k(1)] False k(2) show ?thesis
      by (auto simp: nth_Cons split: nat.splits)
  qed
qed

lemma scan_first:
  "p < length xs \<Longrightarrow> xs ! p = t \<Longrightarrow> \<forall>q<p. xs ! q \<noteq> t \<Longrightarrow> scan xs t = Some p"
proof -
  assume a: "p < length xs" "xs ! p = t" "\<forall>q<p. xs ! q \<noteq> t"
  then have "t \<in> set xs" by (auto simp: in_set_conv_nth)
  then obtain i where i: "scan xs t = Some i" using scan_None_iff by (cases "scan xs t") auto
  from scan_SomeD [OF i] a have "i = p"
    by (metis linorder_neqE_nat)
  with i show ?thesis by simp
qed

lemma length_mem_read [simp]: "length (mem_read m off n) = nat n"
  by (simp add: mem_read_def)

lemma nth_mem_read [simp]: "i < nat n \<Longrightarrow> mem_read m off n ! i = m (nat off + i)"
  by (simp add: mem_read_def)

lemma take_mem_read: "0 \<le> k \<Longrightarrow> k \<le> n \<Longrightarrow> take (nat k) (mem_read m off n) = mem_read m off k"
  by (rule nth_equalityI) auto

lemma drop_mem_read:
  "0 \<le> off \<Longrightarrow> 0 \<le> k \<Longrightarrow> k \<le> n \<Longrightarrow> drop (nat k) (mem_read m off n) = mem_read m (off + k) (n - k)"
  by (rule nth_equalityI) (auto simp: nat_add_distrib ac_simps)

lemma mem_read_upd_outside:
  "a < nat off \<or> nat off + nat n \<le> a \<Longrightarrow> mem_read (m(a := v)) off n = mem_read m off n"
  by (rule nth_equalityI) auto

lemma mem_read_empty [simp]: "n \<le> 0 \<Longrightarrow> mem_read m off n = []"
  by (simp add: mem_read_def)

lemma mem_read_upd_last:
  "0 \<le> off \<Longrightarrow> 0 \<le> k \<Longrightarrow> mem_read (m(nat (off + k) := v)) off (k + 1) = mem_read m off k @ [v]"
  by (rule nth_equalityI) (auto simp: nth_append nat_add_distrib)

lemma readable_wrapped:
  "write_cursor b < read_cursor b \<Longrightarrow>
   readable b = mem_read (the (buffer b)) (read_cursor b) (buf_size b - read_cursor b) @
                mem_read (the (buffer b)) 0 (write_cursor b)"
  by (simp add: readable_def circbuf_setup_writev_iovec_def iovec_bytes_def)

lemma readable_linear:
  "\<not> write_cursor b < read_cursor b \<Longrightarrow>
   readable b = mem_read (the (buffer b)) (read_cursor b) (write_cursor b - read_cursor b)"
  by (simp add: readable_def circbuf_setup_writev_iovec_def iovec_bytes_def)

lemma memchr_first:
  assumes "p < nat n" "m (nat off + p) = t" "\<forall>q<p. m (nat off + q) \<noteq> t"
  shows "memchr m off t n = Some (off + int p)"
proof -
  have "scan (mem_read m off n) t = Some p"
    using assms by (intro scan_first) auto
  then show ?thesis by (simp add: memchr_def)
qed

lemma memchr_None: "t \<notin> set (mem_read m off n) \<Longrightarrow> memchr m off t n = None"
  by (simp add: memchr_def scan_None_iff)

lemma extract_absent:
  assumes "T \<notin> set (readable (input conn))"
  shows "extract_to_terminator conn T = extract_finish None conn"
proof (cases "write_cursor (input conn) < read_cursor (input conn)")
  case True
  with assms have "T \<notin> set (mem_read (the (buffer (input conn))) (read_cursor (input conn)) (buf_size (input conn) - read_cursor (input conn)))"
    and "T \<notin> set (mem_read (the (buffer (input conn))) 0 (write_cursor (input conn)))"
    by (simp_all add: readable_wrapped)
  then show ?thesis using True
    by (simp add: extract_to_terminator_def Let_def memchr_None)
next
  case False
  with assms have "T \<notin> set (mem_read (the (buffer (input conn))) (read_cursor (input conn)) (write_cursor (input conn) - read_cursor (input conn)))"
    by (simp add: readable_linear)
  then show ?thesis using False
    by (simp add: extract_to_terminator_def Let_def memchr_None)
qed

section \<open>Extraction: the terminator is found\<close>

lemma extract_found_linear:
  assumes nw: "\<not> write_cursor (input conn) < read_cursor (input conn)"
    and r0: "0 \<le> read_cursor (input conn)"
    and p: "p < length (readable (input conn))"
    and at: "readable (input conn) ! p = T"
    and first: "\<forall>q<p. readable (input conn) ! q \<noteq> T"
  shows "frame_of (readable (input conn)) p conn (extract_to_terminator conn T)"
proof -
  define inp where "inp = input conn"
  define m where "m = the (buffer inp)"
  define r where "r = read_cursor inp"
  define w where "w = write_cursor inp"
  have content: "readable inp = mem_read m r (w - r)"
    using nw by (simp add: readable_linear inp_def m_def r_def w_def)
  have pn: "p < nat (w - r)" using p content by (simp add: inp_def)
  have "memchr m r T (w - r) = Some (r + int p)"
  proof (rule memchr_first [OF pn])
    show "m (nat r + p) = T" using at pn content by (simp add: inp_def)
    show "\<forall>q<p. m (nat r + q) \<noteq> T"
    proof (intro allI impI)
      fix q assume "q < p"
      with first pn content show "m (nat r + q) \<noteq> T"
        by (auto simp: inp_def dest!: spec [of _ q])
    qed
  qed
  note mc = this
  have rw: "r + int p + 1 \<le> w" using pn by linarith
  have r0': "0 \<le> r" using r0 by (simp add: r_def inp_def)
  have bufeq: "mem_read (m(nat (r + int p) := 0)) r (int p + 1) = take p (readable inp) @ [0]"
  proof -
    have "take (nat (int p)) (mem_read m r (w - r)) = mem_read m r (int p)"
      by (rule take_mem_read) (use rw in auto)
    then show ?thesis using mem_read_upd_last [OF r0', of "int p" m 0] content by simp
  qed
  have rest: "mem_read (m(nat (r + int p) := 0)) (r + int p + 1) (w - (r + int p + 1)) = drop (Suc p) (readable inp)"
  proof -
    have "drop (nat (int p + 1)) (mem_read m r (w - r)) = mem_read m (r + (int p + 1)) (w - r - (int p + 1))"
      by (rule drop_mem_read) (use rw r0' in auto)
    moreover have "mem_read (m(nat (r + int p) := 0)) (r + int p + 1) (w - (r + int p + 1)) = mem_read m (r + int p + 1) (w - (r + int p + 1))"
      by (rule mem_read_upd_outside) (use r0' in auto)
    moreover have "nat (int p + 1) = Suc p" by simp
    ultimately show ?thesis using content by (simp add: algebra_simps)
  qed
  show ?thesis
  proof (cases "r + int p + 1 = w")
    case True
    then have "drop (Suc p) (readable inp) = []" using content by simp
    with True mc nw bufeq show ?thesis
      unfolding frame_of_def extract_to_terminator_def extract_finish_def
      by (simp add: Let_def inp_def [symmetric] m_def [symmetric] r_def [symmetric] w_def [symmetric]
          readable_linear add.commute)
  next
    case False
    with rw have "r + int p + 1 < w" by simp
    with False mc nw bufeq rest show ?thesis
      unfolding frame_of_def extract_to_terminator_def extract_finish_def
      by (simp add: Let_def inp_def [symmetric] m_def [symmetric] r_def [symmetric] w_def [symmetric]
          readable_linear add.commute)
  qed
qed

lemma extract_found_tail:
  assumes wr: "write_cursor (input conn) < read_cursor (input conn)"
    and w0: "0 \<le> write_cursor (input conn)"
    and p: "int p < buf_size (input conn) - read_cursor (input conn)"
    and at: "readable (input conn) ! p = T"
    and first: "\<forall>q<p. readable (input conn) ! q \<noteq> T"
  shows "frame_of (readable (input conn)) p conn (extract_to_terminator conn T)"
proof -
  define inp where "inp = input conn"
  define m where "m = the (buffer inp)"
  define r where "r = read_cursor inp"
  define w where "w = write_cursor inp"
  define s where "s = buf_size inp"
  have content: "readable inp = mem_read m r (s - r) @ mem_read m 0 w"
    using wr by (simp add: readable_wrapped inp_def m_def r_def w_def s_def)
  have pn: "p < nat (s - r)" using p by (simp add: inp_def s_def r_def)
  have r0: "0 \<le> r" "w < r" "0 \<le> w" using wr w0 by (simp_all add: r_def w_def inp_def)
  have nth_tail: "q < nat (s - r) \<Longrightarrow> readable inp ! q = m (nat r + q)" for q
    by (simp add: content nth_append)
  have mc: "memchr m r T (s - r) = Some (r + int p)"
  proof (rule memchr_first [OF pn])
    show "m (nat r + p) = T" using at pn nth_tail by (simp add: inp_def)
    show "\<forall>q<p. m (nat r + q) \<noteq> T"
    proof (intro allI impI)
      fix q assume "q < p"
      with first pn nth_tail [of q] show "m (nat r + q) \<noteq> T"
        by (auto simp: inp_def dest!: spec [of _ q])
    qed
  qed
  have rs: "r + int p + 1 \<le> s" using pn by linarith
  have bufeq: "mem_read (m(nat (r + int p) := 0)) r (int p + 1) = take p (readable inp) @ [0]"
  proof -
    have "take (nat (int p)) (mem_read m r (s - r)) = mem_read m r (int p)"
      by (rule take_mem_read) (use rs in auto)
    moreover have "take p (readable inp) = take p (mem_read m r (s - r))"
      using pn by (simp add: content)
    ultimately show ?thesis using mem_read_upd_last [OF r0(1), of "int p" m 0] by simp
  qed
  have rest: "mem_read (m(nat (r + int p) := 0)) (r + int p + 1) (s - (r + int p + 1)) @
              mem_read (m(nat (r + int p) := 0)) 0 w = drop (Suc p) (readable inp)"
  proof -
    have "drop (nat (int p + 1)) (mem_read m r (s - r)) = mem_read m (r + (int p + 1)) (s - r - (int p + 1))"
      by (rule drop_mem_read) (use rs r0 in auto)
    moreover have "mem_read (m(nat (r + int p) := 0)) (r + int p + 1) (s - (r + int p + 1)) = mem_read m (r + int p + 1) (s - (r + int p + 1))"
      by (rule mem_read_upd_outside) (use r0 in auto)
    moreover have "mem_read (m(nat (r + int p) := 0)) 0 w = mem_read m 0 w"
      by (rule mem_read_upd_outside) (use r0 in auto)
    moreover have "nat (int p + 1) = Suc p" by simp
    moreover have "drop (Suc p) (readable inp) = drop (Suc p) (mem_read m r (s - r)) @ mem_read m 0 w"
      using pn by (simp add: content)
    ultimately show ?thesis by (simp add: algebra_simps)
  qed
  have "w < r + int p + 1" using r0 by linarith
  with mc wr bufeq rest show ?thesis
    unfolding frame_of_def extract_to_terminator_def
    by (simp add: Let_def inp_def [symmetric] m_def [symmetric] r_def [symmetric] w_def [symmetric]
        s_def [symmetric] readable_wrapped add.commute)
qed

lemma extract_found_head:
  assumes wr: "write_cursor (input conn) < read_cursor (input conn)"
    and rs: "read_cursor (input conn) \<le> buf_size (input conn)"
    and w0: "0 \<le> write_cursor (input conn)"
    and p: "p < length (readable (input conn))"
    and pt: "buf_size (input conn) - read_cursor (input conn) \<le> int p"
    and at: "readable (input conn) ! p = T"
    and first: "\<forall>q<p. readable (input conn) ! q \<noteq> T"
  shows "frame_of (readable (input conn)) p conn (extract_to_terminator conn T)"
proof -
  define inp where "inp = input conn"
  define m where "m = the (buffer inp)"
  define r where "r = read_cursor inp"
  define w where "w = write_cursor inp"
  define s where "s = buf_size inp"
  define k where "k = p - nat (s - r)"
  have content: "readable inp = mem_read m r (s - r) @ mem_read m 0 w"
    using wr by (simp add: readable_wrapped inp_def m_def r_def w_def s_def)
  have r0: "0 \<le> r" "w < r" "0 \<le> w" "r \<le> s" using wr w0 rs by (simp_all add: r_def w_def s_def inp_def)
  have pk: "p = nat (s - r) + k" using pt r0 by (simp add: k_def s_def r_def inp_def)
  have kw: "k < nat w" using p content pk by (simp add: inp_def)
  have nth_tail: "q < nat (s - r) \<Longrightarrow> readable inp ! q = m (nat r + q)" for q
    by (simp add: content nth_append)
  have nth_head: "q < nat w \<Longrightarrow> readable inp ! (nat (s - r) + q) = m q" for q
    by (simp add: content nth_append)
  have "T \<notin> set (mem_read m r (s - r))"
  proof
    assume "T \<in> set (mem_read m r (s - r))"
    then obtain q where q: "q < nat (s - r)" "mem_read m r (s - r) ! q = T"
      by (auto simp: in_set_conv_nth)
    then have "q < p" "readable inp ! q = T" using pk nth_tail by auto
    with first show False by (simp add: inp_def)
  qed
  then have mc1: "memchr m r T (s - r) = None" by (rule memchr_None)
  have mc2: "memchr m 0 T w = Some (0 + int k)"
  proof (rule memchr_first [OF kw])
    show "m (nat 0 + k) = T" using at kw nth_head [of k] pk by (simp add: inp_def)
    show "\<forall>q<k. m (nat 0 + q) \<noteq> T"
    proof (intro allI impI)
      fix q assume "q < k"
      then have "nat (s - r) + q < p" "q < nat w" using pk kw by auto
      with first nth_head [of q] show "m (nat 0 + q) \<noteq> T"
        by (auto simp: inp_def)
    qed
  qed
  have kw': "int k + 1 \<le> w" using kw by linarith
  have bufeq: "mem_read m r (s - r) @ mem_read (m(nat (int k) := 0)) 0 (int k + 1) = take p (readable inp) @ [0]"
  proof -
    have "take (nat (int k)) (mem_read m 0 w) = mem_read m 0 (int k)"
      by (rule take_mem_read) (use kw' in auto)
    moreover have "take p (readable inp) = mem_read m r (s - r) @ take k (mem_read m 0 w)"
      using pk by (simp add: content)
    ultimately show ?thesis using mem_read_upd_last [of 0 "int k" m 0] by simp
  qed
  have rest: "mem_read (m(nat (int k) := 0)) (int k + 1) (w - (int k + 1)) = drop (Suc p) (readable inp)"
  proof -
    have "drop (nat (int k + 1)) (mem_read m 0 w) = mem_read m (0 + (int k + 1)) (w - (int k + 1))"
      by (rule drop_mem_read) (use kw' in auto)
    moreover have "mem_read (m(nat (int k) := 0)) (int k + 1) (w - (int k + 1)) = mem_read m (int k + 1) (w - (int k + 1))"
      by (rule mem_read_upd_outside) auto
    moreover have "nat (int k + 1) = Suc k" by simp
    moreover have "drop (Suc p) (readable inp) = drop (Suc k) (mem_read m 0 w)"
      using pk by (simp add: content)
    ultimately show ?thesis by simp
  qed
  have len: "int p + 1 = int k + 1 + (s - r)" using pk r0 by simp
  show ?thesis
  proof (cases "int k + 1 = w")
    case True
    then have "drop (Suc p) (readable inp) = []" using content pk by simp
    with True mc1 mc2 wr bufeq len show ?thesis
      unfolding frame_of_def extract_to_terminator_def extract_finish_def
      by (simp add: Let_def inp_def [symmetric] m_def [symmetric] r_def [symmetric] w_def [symmetric]
          s_def [symmetric] readable_linear add.commute)
  next
    case False
    with kw' have "int k + 1 < w" by simp
    with False mc1 mc2 wr bufeq rest len show ?thesis
      unfolding frame_of_def extract_to_terminator_def extract_finish_def
      by (simp add: Let_def inp_def [symmetric] m_def [symmetric] r_def [symmetric] w_def [symmetric]
          s_def [symmetric] readable_linear add.commute)
  qed
qed

lemma not_in_take_nth:
  "p \<le> length xs \<Longrightarrow> T \<notin> set (take p xs) \<Longrightarrow> \<forall>q<p. xs ! q \<noteq> T"
  by (auto simp: in_set_conv_nth)

text \<open>
  Claim C4. Let the readable content of the input ring hold the terminator \<open>T\<close>
  first at logical offset \<open>p\<close>, wrapped or not. Then \<^verbatim>\<open>extract_to_terminator\<close>
  returns 0 and sets \<^verbatim>\<open>buf_len\<close> to \<open>p + 1\<close>; the returned buffer holds the
  \<open>p\<close> bytes before the terminator and then a null byte; and the readable content
  afterwards is what followed the terminator, so the next extraction begins at logical
  offset \<open>p + 1\<close>.
\<close>

theorem extract_to_terminator_found:
  assumes ok: "ring_ok (input conn)"
    and p: "p < length (readable (input conn))"
    and at: "readable (input conn) ! p = T"
    and first: "T \<notin> set (take p (readable (input conn)))"
  shows "\<exists>e conn'. extract_to_terminator conn T = (0, Some e, conn') \<and>
           buf_len e = int p + 1 \<and> length (buf e) = p + 1 \<and> last (buf e) = 0 \<and>
           butlast (buf e) = take p (readable (input conn)) \<and>
           readable (input conn') = drop (p + 1) (readable (input conn))"
proof -
  have first': "\<forall>q<p. readable (input conn) ! q \<noteq> T"
    using p first by (intro not_in_take_nth) auto
  have "frame_of (readable (input conn)) p conn (extract_to_terminator conn T)"
  proof (cases "write_cursor (input conn) < read_cursor (input conn)")
    case False
    then show ?thesis using ok p at first'
      by (intro extract_found_linear) (auto simp: ring_ok_def)
  next
    case True
    show ?thesis
    proof (cases "int p < buf_size (input conn) - read_cursor (input conn)")
      case True
      with \<open>write_cursor (input conn) < read_cursor (input conn)\<close> show ?thesis using ok at first'
        by (intro extract_found_tail) (auto simp: ring_ok_def)
    next
      case False
      with \<open>write_cursor (input conn) < read_cursor (input conn)\<close> show ?thesis using ok p at first'
        by (intro extract_found_head) (auto simp: ring_ok_def)
    qed
  qed
  then show ?thesis using p
    by (auto simp: frame_of_def split: prod.splits option.splits)
qed

text \<open>
  The wrapped example: the terminator 10 lies at logical offset 3, after the wrap, and
  the frame is returned in a buffer of its own.
\<close>

lemma upt_4: "[0..<2] = [0, 1]" "[0..<3] = [0,1,2]"
  by (simp_all add: upt_rec)

lemma readable_wrapped_ring: "readable wrapped_ring = [97, 97, 97, 10, 97]"
  by (simp add: readable_def wrapped_ring_def circbuf_setup_writev_iovec_def iovec_bytes_def mem_read_def upt_4)

theorem extract_to_terminator_found_witness:
  "ring_ok (input (conn_of_input wrapped_ring)) \<and>
   readable (input (conn_of_input wrapped_ring)) = [97, 97, 97, 10, 97] \<and>
   (\<exists>e conn'. extract_to_terminator (conn_of_input wrapped_ring) 10 = (0, Some e, conn') \<and>
      buf_len e = 4 \<and> length (buf e) = 4 \<and> last (buf e) = 0 \<and>
      butlast (buf e) = [97, 97, 97] \<and> readable (input conn') = [97])"
proof -
  have i: "input (conn_of_input wrapped_ring) = wrapped_ring"
    by (simp add: conn_of_input_def)
  have h1: "ring_ok (input (conn_of_input wrapped_ring))"
    unfolding i by (simp add: ring_ok_def wrapped_ring_def)
  have h2: "3 < length (readable (input (conn_of_input wrapped_ring)))"
    and h3: "readable (input (conn_of_input wrapped_ring)) ! 3 = 10"
    and h4: "10 \<notin> set (take 3 (readable (input (conn_of_input wrapped_ring))))"
    by (simp_all add: i readable_wrapped_ring)
  show ?thesis
    using extract_to_terminator_found [OF h1 h2 h3 h4] h1
    by (simp add: i readable_wrapped_ring)
qed

section \<open>Extraction: the terminator is absent\<close>

text \<open>
  Claim C5, as stated, fails on an empty ring whose equal cursors are not 0: the
  function returns -1 and moves both cursors to 0.
\<close>

theorem extract_to_terminator_absent_counterexample:
  "10 \<notin> set (readable (input (conn_of_input caught_up_ring))) \<and>
   read_cursor (input (conn_of_input caught_up_ring)) = 7 \<and>
   write_cursor (input (conn_of_input caught_up_ring)) = 7 \<and>
   fst (extract_to_terminator (conn_of_input caught_up_ring) 10) = - 1 \<and>
   read_cursor (input (snd (snd (extract_to_terminator (conn_of_input caught_up_ring) 10)))) = 0 \<and>
   write_cursor (input (snd (snd (extract_to_terminator (conn_of_input caught_up_ring) 10)))) = 0"
  by (simp add: conn_of_input_def caught_up_ring_def readable_def circbuf_setup_writev_iovec_def
      iovec_bytes_def extract_to_terminator_def extract_finish_def memchr_def Let_def)

text \<open>
  Claim C5, amended. When the readable content of the input ring does not hold the
  terminator, \<^verbatim>\<open>extract_to_terminator\<close> returns -1 and sets no output; the cursors
  stay as they were unless they are equal, in which case both are reset to 0. Nothing
  else of the connection changes.
\<close>

theorem extract_to_terminator_absent:
  assumes "ring_ok (input conn)"
    and "T \<notin> set (readable (input conn))"
  shows "extract_to_terminator conn T =
           (- 1, None,
            if read_cursor (input conn) = write_cursor (input conn)
            then conn\<lparr>input := (input conn)\<lparr>read_cursor := 0, write_cursor := 0\<rparr>\<rparr>
            else conn)"
  using extract_absent [OF assms(2)] by (simp add: extract_finish_def Let_def)

theorem extract_to_terminator_absent_witness:
  "ring_ok (input (conn_of_input wrapped_ring)) \<and>
   13 \<notin> set (readable (input (conn_of_input wrapped_ring))) \<and>
   extract_to_terminator (conn_of_input wrapped_ring) 13 = (- 1, None, conn_of_input wrapped_ring)"
proof -
  have i: "input (conn_of_input wrapped_ring) = wrapped_ring"
    by (simp add: conn_of_input_def)
  have h1: "ring_ok (input (conn_of_input wrapped_ring))"
    unfolding i by (simp add: ring_ok_def wrapped_ring_def)
  have h2: "13 \<notin> set (readable (input (conn_of_input wrapped_ring)))"
    by (simp add: i readable_wrapped_ring)
  have c: "read_cursor wrapped_ring \<noteq> write_cursor wrapped_ring"
    by (simp add: wrapped_ring_def)
  show ?thesis
    using extract_to_terminator_absent [OF h1 h2] h1 h2 c by (simp add: i)
qed

section \<open>Writing into the ring\<close>

lemma new_ring_eq:
  "new_ring fresh = \<lparr>write_cursor = 0, read_cursor = 0, buf_size = 4096, buffer = Some fresh\<rparr>"
  by (simp add: new_ring_def calloc_ring_def init_circular_buffer_def circbuf_alloc_def
      INIT_CONN_BUF_SIZE_def Let_def)

lemma circbuf_write_grow_enough:
  "\<not> circbuf_avail_buf b < bytes \<Longrightarrow> circbuf_write_grow fresh b bytes = Some b"
  by (subst circbuf_write_grow.simps) simp

lemma mem_read_memcpy_same:
  "0 \<le> off \<Longrightarrow> nat n \<le> length src \<Longrightarrow> mem_read (memcpy m off src 0 n) off n = take (nat n) src"
  by (rule nth_equalityI) (auto simp: memcpy_def)

lemma mem_read_memcpy_outside:
  "off + n \<le> a \<or> a + k \<le> off \<Longrightarrow> 0 \<le> off \<Longrightarrow> 0 \<le> a \<Longrightarrow>
   mem_read (memcpy m off src soff n) a k = mem_read m a k"
  by (rule nth_equalityI) (auto simp: memcpy_def)

text \<open>
  Claim C3 asks that after every sequence of ring operations from an empty ring both
  cursors lie within \<open>0 \<le> cursor < buf_size\<close> and that free space and readable
  length add up to the capacity less one. \<^verbatim>\<open>circbuf_write\<close> takes its first
  non-wrapping branch also when the bytes fill the allocation exactly
  (\<^verbatim>\<open>end_size >= bytes\<close>), and then leaves the write cursor at \<^verbatim>\<open>buf_size\<close>:
  write 2 bytes, consume 1, write 4094.
\<close>

theorem ring_write_cursor_reaches_buf_size:
  "\<exists>b. ring_run (\<lambda>a. 0) (new_ring (\<lambda>a. 0))
          [Write_bytes [1, 2], Advance_read 1, Write_bytes (replicate 4094 7)] = Some b \<and>
        read_cursor b = 1 \<and> write_cursor b = 4096 \<and> buf_size b = 4096 \<and>
        \<not> ring_consistent b"
  by (simp add: new_ring_eq circbuf_write_def circbuf_write_grow_enough circbuf_avail_buf_def
      circbuf_advance_read_def ring_consistent_def Let_def)

text \<open>
  Consuming the 4095 readable bytes of that ring then brings the read cursor to 0
  while the write cursor stays at 4096: the ring is not seen as empty, the vectors
  describe 4096 bytes, and the free space wraps around in \<^verbatim>\<open>uint32_t\<close>.
\<close>

lemma ring_accounting_lost:
  "\<exists>b. ring_run (\<lambda>a. 0) (new_ring (\<lambda>a. 0))
          [Write_bytes [1, 2], Advance_read 1, Write_bytes (replicate 4094 7), Advance_read 4095]
          = Some b \<and>
        read_cursor b = 0 \<and> write_cursor b = 4096 \<and> buf_size b = 4096 \<and>
        circbuf_avail_buf b = 4294967295 \<and> length (readable b) = 4096"
  by (simp add: new_ring_eq circbuf_write_def circbuf_write_grow_enough circbuf_avail_buf_def
      circbuf_advance_read_def readable_def circbuf_setup_writev_iovec_def iovec_bytes_def Let_def)

text \<open>The steps of the run that shows the wrapped write.\<close>

lemma write_fill:
  "circbuf_write f (new_ring f) (replicate 4095 9) 4095 =
     Some (0, \<lparr>write_cursor = 4095, read_cursor = 0, buf_size = 4096,
               buffer = Some (memcpy f 0 (replicate 4095 9) 0 4095)\<rparr>)"
  by (simp add: new_ring_eq circbuf_write_def circbuf_write_grow_enough circbuf_avail_buf_def Let_def)

lemma readable_fill:
  "readable \<lparr>write_cursor = 4095, read_cursor = 0, buf_size = 4096,
             buffer = Some (memcpy f 0 (replicate 4095 9) 0 4095)\<rparr> = replicate 4095 9"
  by (simp add: readable_def circbuf_setup_writev_iovec_def iovec_bytes_def mem_read_memcpy_same)

lemma advance_fill:
  "circbuf_advance_read \<lparr>write_cursor = 4095, read_cursor = 0, buf_size = 4096, buffer = Some m\<rparr> 4094
   = Some \<lparr>write_cursor = 4095, read_cursor = 4094, buf_size = 4096, buffer = Some m\<rparr>"
  by (simp add: circbuf_advance_read_def Let_def)

lemma write_wrap:
  "circbuf_write f \<lparr>write_cursor = 4095, read_cursor = 4094, buf_size = 4096, buffer = Some m\<rparr> [1, 2, 3] 3 =
     Some (0, \<lparr>write_cursor = 2, read_cursor = 4094, buf_size = 4096,
               buffer = Some (memcpy (memcpy m 4095 [1, 2, 3] 0 1) 0 [1, 2, 3] 0 2)\<rparr>)"
  by (simp add: circbuf_write_def circbuf_write_grow_enough circbuf_avail_buf_def Let_def)

lemma upt_2: "[0..<2] = [0, 1]"
  by (simp add: upt_rec)

lemma readable_wrap:
  "readable \<lparr>write_cursor = 2, read_cursor = 4094, buf_size = 4096,
      buffer = Some (memcpy (memcpy (memcpy f 0 (replicate 4095 9) 0 4095) 4095 [1, 2, 3] 0 1) 0 [1, 2, 3] 0 2)\<rparr>
   = [9, 1, 1, 2]"
  by (simp add: readable_def circbuf_setup_writev_iovec_def iovec_bytes_def mem_read_def memcpy_def upt_2)

text \<open>
  Claim C2 asks that the bytes drained from a ring equal the bytes written, in order,
  also for a piece that wraps past the end of the allocation. In its wrapping branch
  \<^verbatim>\<open>circbuf_write\<close> copies the second part from the start of \<^verbatim>\<open>in\<close> again
  (\<^verbatim>\<open>memcpy(buf->buffer, in, bytes - end_size)\<close>): after 4095 bytes written and 4094
  consumed, writing 1, 2, 3 leaves 1, 1, 2 in the ring.
\<close>

theorem ring_wrapped_write_repeats_prefix:
  "\<exists>b. ring_drain (\<lambda>a. 0) (new_ring (\<lambda>a. 0))
          [Write_bytes (replicate 4095 9), Advance_read 4094, Write_bytes [1, 2, 3]]
          = Some (replicate 4094 9, b) \<and>
        readable b = [9, 1, 1, 2] \<and>
        ring_written [Write_bytes (replicate 4095 9), Advance_read 4094, Write_bytes [1, 2, 3]]
          = replicate 4094 9 @ [9, 1, 2, 3]"
proof -
  have "replicate (4094 + 1) (9::byte) = replicate 4094 9 @ [9]"
    unfolding replicate_add by simp
  then have w: "ring_written [Write_bytes (replicate 4095 9), Advance_read 4094, Write_bytes [1, 2, 3]]
          = replicate 4094 9 @ [9, 1, 2, 3]"
    by simp
  have "\<exists>b. ring_drain (\<lambda>a. 0) (new_ring (\<lambda>a. 0))
          [Write_bytes (replicate 4095 9), Advance_read 4094, Write_bytes [1, 2, 3]]
          = Some (replicate 4094 9, b) \<and> readable b = [9, 1, 1, 2]"
    by (simp add: write_fill readable_fill advance_fill write_wrap readable_wrap)
  with w show ?thesis by blast
qed

section \<open>What \<^verbatim>\<open>circbuf_write\<close> appends when the ring need not grow\<close>

lemma mem_read_append:
  "0 \<le> off \<Longrightarrow> 0 \<le> k \<Longrightarrow> 0 \<le> j \<Longrightarrow>
   mem_read m off (k + j) = mem_read m off k @ mem_read m (off + k) j"
  by (rule nth_equalityI) (auto simp: nth_append nat_add_distrib)

text \<open>
  Without growth and without wrap, \<^verbatim>\<open>circbuf_write\<close> appends the bytes to the
  readable content.
\<close>

lemma circbuf_write_linear:
  assumes l: "\<not> write_cursor b < read_cursor b" and r: "0 \<le> read_cursor b"
    and s: "write_cursor b \<le> buf_size b" "buf_size b < 2 ^ 32"
    and a: "\<not> circbuf_avail_buf b < bytes"
    and n: "0 \<le> bytes" "nat bytes \<le> length inp" "bytes \<le> buf_size b - write_cursor b"
  shows "\<exists>b'. circbuf_write fresh b inp bytes = Some (0, b') \<and>
              readable b' = readable b @ take (nat bytes) inp \<and>
              write_cursor b' = write_cursor b + bytes \<and> read_cursor b' = read_cursor b"
proof -
  define m where "m = the (buffer b)"
  have w0: "0 \<le> write_cursor b" using l r by simp
  have e: "(buf_size b - write_cursor b) mod 2 ^ 32 = buf_size b - write_cursor b"
    using s w0 by simp
  have "mem_read (memcpy m (write_cursor b) inp 0 bytes) (read_cursor b)
          ((write_cursor b - read_cursor b) + bytes) =
        mem_read (memcpy m (write_cursor b) inp 0 bytes) (read_cursor b) (write_cursor b - read_cursor b) @
        mem_read (memcpy m (write_cursor b) inp 0 bytes) (read_cursor b + (write_cursor b - read_cursor b)) bytes"
    by (rule mem_read_append) (use l r n in auto)
  moreover have "mem_read (memcpy m (write_cursor b) inp 0 bytes) (read_cursor b) (write_cursor b - read_cursor b)
      = mem_read m (read_cursor b) (write_cursor b - read_cursor b)"
    by (rule mem_read_memcpy_outside) (use l r w0 in auto)
  moreover have "mem_read (memcpy m (write_cursor b) inp 0 bytes) (write_cursor b) bytes = take (nat bytes) inp"
    by (rule mem_read_memcpy_same) (use w0 n in auto)
  ultimately have "mem_read (memcpy m (write_cursor b) inp 0 bytes) (read_cursor b)
          (write_cursor b + bytes - read_cursor b) = readable b @ take (nat bytes) inp"
    using l by (simp add: readable_linear m_def algebra_simps)
  then show ?thesis
    using a l n e
    by (simp add: circbuf_write_def circbuf_write_grow_enough Let_def m_def readable_linear)
qed

text \<open>
  In the wrapping branch the content gains the first \<^verbatim>\<open>end_size\<close> bytes of the input
  and then, instead of the rest, the first \<^verbatim>\<open>bytes - end_size\<close> bytes again.
\<close>

lemma circbuf_write_wrapping:
  assumes l: "\<not> write_cursor b < read_cursor b" and r: "0 \<le> read_cursor b"
    and s: "write_cursor b < buf_size b" "buf_size b < 2 ^ 32"
    and a: "\<not> circbuf_avail_buf b < bytes"
    and n: "nat bytes \<le> length inp" "buf_size b - write_cursor b < bytes"
  shows "\<exists>b'. circbuf_write fresh b inp bytes = Some (0, b') \<and>
              readable b' = readable b @ take (nat (buf_size b - write_cursor b)) inp @
                            take (nat (bytes - (buf_size b - write_cursor b))) inp"
proof -
  define m where "m = the (buffer b)"
  define e where "e = buf_size b - write_cursor b"
  define m1 where "m1 = memcpy m (write_cursor b) inp 0 e"
  define m2 where "m2 = memcpy m1 0 inp 0 (bytes - e)"
  have w0: "0 \<le> write_cursor b" using l r by simp
  have e0: "0 \<le> e" "e < bytes" using s n by (simp_all add: e_def)
  have em: "(buf_size b - write_cursor b) mod 2 ^ 32 = e"
    using s w0 by (simp add: e_def)
  have av: "circbuf_avail_buf b = buf_size b - write_cursor b + read_cursor b - 1"
    using l r s w0 by (simp add: circbuf_avail_buf_def) 
  then have room: "bytes - e < read_cursor b" using a by (simp add: e_def)
  have w': "bytes - e < read_cursor b" by (rule room)
  have sz: "buf_size b - read_cursor b = (write_cursor b - read_cursor b) + e"
    by (simp add: e_def)
  have t1: "mem_read m2 (read_cursor b) (buf_size b - read_cursor b) =
        mem_read m1 (read_cursor b) (buf_size b - read_cursor b)"
    unfolding m2_def by (rule mem_read_memcpy_outside) (use room r in auto)
  have t2: "mem_read m1 (read_cursor b) ((write_cursor b - read_cursor b) + e) =
        mem_read m1 (read_cursor b) (write_cursor b - read_cursor b) @
        mem_read m1 (read_cursor b + (write_cursor b - read_cursor b)) e"
    by (rule mem_read_append) (use l r e0 in auto)
  have t3: "mem_read m1 (read_cursor b) (write_cursor b - read_cursor b) =
        mem_read m (read_cursor b) (write_cursor b - read_cursor b)"
    unfolding m1_def by (rule mem_read_memcpy_outside) (use l r w0 in auto)
  have t4: "mem_read m1 (write_cursor b) e = take (nat e) inp"
    unfolding m1_def using mem_read_memcpy_same [of "write_cursor b" e inp m] w0 n e0 by simp
  have "mem_read m2 (read_cursor b) (buf_size b - read_cursor b) =
      mem_read m (read_cursor b) (write_cursor b - read_cursor b) @ take (nat e) inp"
    using t1 t2 t3 t4 by (simp add: sz)
  then have tail: "mem_read m2 (read_cursor b) (buf_size b - read_cursor b) =
      readable b @ take (nat e) inp"
    using l by (simp add: readable_linear m_def)
  have head: "mem_read m2 0 (bytes - e) = take (nat (bytes - e)) inp"
    unfolding m2_def by (rule mem_read_memcpy_same) (use n e0 in auto)
  have "\<exists>b'. circbuf_write fresh b inp bytes = Some (0, b') \<and>
              readable b' = readable b @ take (nat e) inp @ take (nat (bytes - e)) inp"
    using a l n em e0 w' tail head
    by (simp add: circbuf_write_def circbuf_write_grow_enough Let_def m_def [symmetric]
        m1_def [symmetric] m2_def [symmetric] readable_wrapped)
  then show ?thesis by (simp add: e_def)
qed

section \<open>Sending and the write watcher\<close>

text \<open>
  With both cursors below the size of the ring, \<^verbatim>\<open>circbuf_advance_read\<close> by \<open>n\<close>
  removes the first \<open>n\<close> bytes of the readable content.
\<close>

lemma circbuf_advance_read_drops:
  assumes r: "0 \<le> read_cursor b" "read_cursor b < buf_size b"
    and w: "0 \<le> write_cursor b" "write_cursor b < buf_size b"
    and n: "0 < n" "nat n \<le> length (readable b)"
  shows "\<exists>b'. circbuf_advance_read b n = Some b' \<and> readable b' = drop (nat n) (readable b)"
proof (cases "write_cursor b < read_cursor b")
  case False
  then have c: "readable b = mem_read (the (buffer b)) (read_cursor b) (write_cursor b - read_cursor b)"
    by (rule readable_linear)
  with n have le: "read_cursor b + n \<le> write_cursor b" by simp
  then have m: "(read_cursor b + n) mod buf_size b = read_cursor b + n"
    using r w n by simp
  have d: "drop (nat n) (readable b) =
      mem_read (the (buffer b)) (read_cursor b + n) (write_cursor b - read_cursor b - n)"
    unfolding c by (rule drop_mem_read) (use r n le in auto)
  show ?thesis
  proof (cases "read_cursor b + n = write_cursor b")
    case True
    then show ?thesis using r m d
      by (simp add: circbuf_advance_read_def Let_def readable_linear)
  next
    case False
    with le have "read_cursor b + n < write_cursor b" by simp
    then show ?thesis using r m d False
      by (simp add: circbuf_advance_read_def Let_def readable_linear algebra_simps)
  qed
next
  case True
  then have c: "readable b = mem_read (the (buffer b)) (read_cursor b) (buf_size b - read_cursor b) @
      mem_read (the (buffer b)) 0 (write_cursor b)"
    by (rule readable_wrapped)
  with n r w have le: "n \<le> buf_size b - read_cursor b + write_cursor b" by simp
  show ?thesis
  proof (cases "read_cursor b + n < buf_size b")
    case inside: True
    then have m: "(read_cursor b + n) mod buf_size b = read_cursor b + n"
      using r n by simp
    have "drop (nat n) (mem_read (the (buffer b)) (read_cursor b) (buf_size b - read_cursor b)) =
        mem_read (the (buffer b)) (read_cursor b + n) (buf_size b - read_cursor b - n)"
      by (rule drop_mem_read) (use r n inside in auto)
    then have d: "drop (nat n) (readable b) =
        mem_read (the (buffer b)) (read_cursor b + n) (buf_size b - read_cursor b - n) @
        mem_read (the (buffer b)) 0 (write_cursor b)"
      unfolding c using inside r n by simp
    have "write_cursor b < read_cursor b + n" using True n by simp
    then show ?thesis using r m d True
      by (simp add: circbuf_advance_read_def Let_def readable_wrapped algebra_simps)
  next
    case False
    define k where "k = read_cursor b + n - buf_size b"
    have k: "0 \<le> k" "k \<le> write_cursor b" "k < buf_size b"
      using False le w by (simp_all add: k_def)
    have "(read_cursor b + n) mod buf_size b = (k + buf_size b) mod buf_size b"
      by (simp add: k_def)
    also have "\<dots> = k" using k by simp
    finally have m: "(read_cursor b + n) mod buf_size b = k" .
    have "nat n = nat (buf_size b - read_cursor b) + nat k"
      using r k by (simp add: k_def nat_add_distrib [symmetric])
    then have "drop (nat n) (readable b) = drop (nat k) (mem_read (the (buffer b)) 0 (write_cursor b))"
      unfolding c by simp
    also have "\<dots> = mem_read (the (buffer b)) (0 + k) (write_cursor b - k)"
      by (rule drop_mem_read) (use k in auto)
    finally have d: "drop (nat n) (readable b) = mem_read (the (buffer b)) k (write_cursor b - k)"
      by simp
    show ?thesis
    proof (cases "k = write_cursor b")
      case True
      then show ?thesis using r m d
        by (simp add: circbuf_advance_read_def Let_def readable_linear)
    next
      case False
      with k have "k < write_cursor b" by simp
      then show ?thesis using r m d False
        by (simp add: circbuf_advance_read_def Let_def readable_linear)
    qed
  qed
qed

lemma upt_3: "[0..<3] = [0, 1, 2]"
  by (simp add: upt_rec)

text \<open>
  Claim C9. With \<^verbatim>\<open>num_bufs <= 0\<close>, \<^verbatim>\<open>send_client_response\<close> returns 0 and
  leaves the connection (rings, \<^verbatim>\<open>use_write_buf\<close>, watchers) and the networking state
  (pending events, system calls made, locks taken) as they were, whatever the buffer and
  size arrays are.
\<close>

theorem send_client_response_no_buffers:
  assumes "num_bufs \<le> 0"
  shows "send_client_response fresh conn netconf response_buffers buf_sizes num_bufs wr =
           Some (0, conn, netconf)"
  using assms by (simp add: send_client_response_def)

theorem send_client_response_no_buffers_witness:
  "send_client_response (\<lambda>a. 0) direct_conn idle_net [[97, 98]] [2] 0 (2, EAGAIN) =
     Some (0, direct_conn, idle_net) \<and>
   send_client_response (\<lambda>a. 0) buffered_conn idle_net [[97, 98]] [2] (- 1) (2, EAGAIN) =
     Some (0, buffered_conn, idle_net)"
  using send_client_response_no_buffers [of 0 "\<lambda>a. 0" direct_conn idle_net "[[97, 98]]" "[2]" "(2, EAGAIN)"]
    send_client_response_no_buffers [of "- 1" "\<lambda>a. 0" buffered_conn idle_net "[[97, 98]]" "[2]" "(2, EAGAIN)"]
  by simp

text \<open>
  What \<^verbatim>\<open>handle_client_writebuf\<close> does with the cursors when \<^verbatim>\<open>writev\<close> reports
  \<open>n > 0\<close> bytes: the read cursor of the output ring advances by \<open>n\<close> modulo the
  size of the ring, going to 0 with the write cursor when it meets it. If the cursors
  are then equal \<^verbatim>\<open>use_write_buf\<close> is 0 and no event is queued; otherwise
  \<^verbatim>\<open>use_write_buf\<close> is as before and one \<^verbatim>\<open>SCHEDULE_WATCHER\<close> event for the
  watcher that fired is at the head of the event list.
\<close>

lemma handle_client_writebuf_wrote:
  assumes "0 < n" and "0 < buf_size (output conn)"
  shows "\<exists>conn' nc'.
           handle_client_writebuf watch conn netconf (n, e) = Some (0, conn', nc') \<and>
           read_cursor (output conn') =
             (if (read_cursor (output conn) + n) mod buf_size (output conn) = write_cursor (output conn)
              then 0 else (read_cursor (output conn) + n) mod buf_size (output conn)) \<and>
           (if read_cursor (output conn') = write_cursor (output conn')
            then use_write_buf conn' = 0 \<and> events nc' = events netconf
            else use_write_buf conn' = use_write_buf conn \<and>
                 events nc' = \<lparr>event_type = SCHEDULE_WATCHER, watcher = Some watch\<rparr> # events netconf)"
  using assms
  by (simp add: handle_client_writebuf_def circbuf_advance_read_def schedule_async_def
      LOCK_def UNLOCK_def Let_def)

lemma handle_client_writebuf_wrote_instances:
  "(\<exists>conn' nc'.
      handle_client_writebuf (Write_watcher 5) buffered_conn idle_net (2, EAGAIN) = Some (0, conn', nc') \<and>
      read_cursor (output conn') = 2 \<and> write_cursor (output conn') = 3 \<and>
      use_write_buf conn' = 1 \<and>
      events nc' = [\<lparr>event_type = SCHEDULE_WATCHER, watcher = Some (Write_watcher 5)\<rparr>]) \<and>
   (\<exists>conn' nc'.
      handle_client_writebuf (Write_watcher 5) buffered_conn idle_net (3, EAGAIN) = Some (0, conn', nc') \<and>
      read_cursor (output conn') = 0 \<and> write_cursor (output conn') = 0 \<and>
      use_write_buf conn' = 0 \<and> events nc' = [])"
proof -
  have s: "0 < buf_size (output buffered_conn)"
    by (simp add: buffered_conn_def)
  have o: "read_cursor (output buffered_conn) = 0" "write_cursor (output buffered_conn) = 3"
    "buf_size (output buffered_conn) = 4096" "use_write_buf buffered_conn = 1"
    "events idle_net = []"
    by (simp_all add: buffered_conn_def idle_net_def)
  have w: "write_cursor (output (fst (snd (the (handle_client_writebuf (Write_watcher 5) buffered_conn idle_net (2, EAGAIN)))))) = 3"
    "write_cursor (output (fst (snd (the (handle_client_writebuf (Write_watcher 5) buffered_conn idle_net (3, EAGAIN)))))) = 0"
    by (simp_all add: handle_client_writebuf_def circbuf_advance_read_def schedule_async_def
      LOCK_def UNLOCK_def Let_def o)
  obtain c2 n2 where r2:
    "handle_client_writebuf (Write_watcher 5) buffered_conn idle_net (2, EAGAIN) = Some (0, c2, n2)"
    "read_cursor (output c2) = 2"
    "if read_cursor (output c2) = write_cursor (output c2)
     then use_write_buf c2 = 0 \<and> events n2 = events idle_net
     else use_write_buf c2 = use_write_buf buffered_conn \<and>
          events n2 = \<lparr>event_type = SCHEDULE_WATCHER, watcher = Some (Write_watcher 5)\<rparr> # events idle_net"
    using handle_client_writebuf_wrote [of 2 buffered_conn "Write_watcher 5" idle_net EAGAIN, OF _ s]
    by (auto simp: o)
  obtain c3 n3 where r3:
    "handle_client_writebuf (Write_watcher 5) buffered_conn idle_net (3, EAGAIN) = Some (0, c3, n3)"
    "read_cursor (output c3) = 0"
    "if read_cursor (output c3) = write_cursor (output c3)
     then use_write_buf c3 = 0 \<and> events n3 = events idle_net
     else use_write_buf c3 = use_write_buf buffered_conn \<and>
          events n3 = \<lparr>event_type = SCHEDULE_WATCHER, watcher = Some (Write_watcher 5)\<rparr> # events idle_net"
    using handle_client_writebuf_wrote [of 3 buffered_conn "Write_watcher 5" idle_net EAGAIN, OF _ s]
    by (auto simp: o)
  from w r2(1) r3(1) have "write_cursor (output c2) = 3" "write_cursor (output c3) = 0"
    by simp_all
  with r2 r3 show ?thesis
    by (simp add: o)
qed

lemma readable_empty_iff:
  assumes "0 \<le> read_cursor b" "read_cursor b < buf_size b" "0 \<le> write_cursor b"
  shows "readable b = [] \<longleftrightarrow> read_cursor b = write_cursor b"
proof (cases "write_cursor b < read_cursor b")
  case True
  then have "length (readable b) = nat (buf_size b - read_cursor b) + nat (write_cursor b)"
    by (simp add: readable_wrapped)
  with assms True show ?thesis by auto
next
  case False
  then have "length (readable b) = nat (write_cursor b - read_cursor b)"
    by (simp add: readable_linear)
  with False show ?thesis by auto
qed

lemma circbuf_advance_read_bounds:
  assumes "circbuf_advance_read b n = Some b'" and "0 < buf_size b"
    and "0 \<le> write_cursor b"
  shows "0 \<le> read_cursor b' \<and> read_cursor b' < buf_size b' \<and> 0 \<le> write_cursor b'"
  using assms
  by (auto simp: circbuf_advance_read_def Let_def split: if_splits)

text \<open>
  While both cursors of the output ring are below its size, the cursors are equal
  exactly when nothing is queued, and the write watcher does what is asked of it: the
  \<open>n\<close> bytes transmitted leave the ring, and the connection goes back to direct writes
  exactly if nothing is left.
\<close>

lemma handle_client_writebuf_within_bounds:
  assumes r: "0 \<le> read_cursor (output conn)" "read_cursor (output conn) < buf_size (output conn)"
    and w: "0 \<le> write_cursor (output conn)" "write_cursor (output conn) < buf_size (output conn)"
    and n: "0 < n" "nat n \<le> length (readable (output conn))"
  shows "\<exists>conn' nc'.
           handle_client_writebuf watch conn netconf (n, e) = Some (0, conn', nc') \<and>
           readable (output conn') = drop (nat n) (readable (output conn)) \<and>
           (if readable (output conn') = []
            then use_write_buf conn' = 0 \<and> events nc' = events netconf
            else use_write_buf conn' = use_write_buf conn \<and>
                 events nc' = \<lparr>event_type = SCHEDULE_WATCHER, watcher = Some watch\<rparr> # events netconf)"
proof -
  from circbuf_advance_read_drops [OF r w n] obtain b' where
    a: "circbuf_advance_read (output conn) n = Some b'"
    and d: "readable b' = drop (nat n) (readable (output conn))"
    by blast
  have "0 < buf_size (output conn)" using r by simp
  from circbuf_advance_read_bounds [OF a this w(1)]
  have e: "readable b' = [] \<longleftrightarrow> read_cursor b' = write_cursor b'"
    by (intro readable_empty_iff) simp_all
  show ?thesis
  proof (cases "read_cursor b' = write_cursor b'")
    case True
    with a d e n show ?thesis
      by (simp add: handle_client_writebuf_def Let_def LOCK_def UNLOCK_def)
  next
    case False
    with a d e n show ?thesis
      by (simp add: handle_client_writebuf_def Let_def LOCK_def UNLOCK_def schedule_async_def)
  qed
qed

text \<open>
  The steps of a run that brings the write cursor of the output ring to
  \<^verbatim>\<open>buf_size\<close>, through the functions the core exports.
\<close>

lemma drained_step1:
  "\<exists>c1 n1 m.
     send_client_response (\<lambda>a. 0) direct_conn idle_net [[1, 2]] [2] 1 (- 1, EAGAIN) = Some (0, c1, n1) \<and>
     output c1 = \<lparr>write_cursor = 2, read_cursor = 0, buf_size = 4096, buffer = Some m\<rparr> \<and>
     use_write_buf c1 = 1 \<and> fd (client c1) = 5"
proof -
  have l: "left_off [2] 1 (- 1) 0 0 = (0, 0)"
    by (subst left_off.simps) (simp add: Let_def)
  have w: "circbuf_write (\<lambda>a. 0) empty_ring [1, 2] 2 =
      Some (0, \<lparr>write_cursor = 2, read_cursor = 0, buf_size = 4096,
                buffer = Some (memcpy (\<lambda>a. 0) 0 [1, 2] 0 2)\<rparr>)"
    by (simp add: circbuf_write_def circbuf_write_grow_enough circbuf_avail_buf_def empty_ring_def Let_def)
  have c: "copy_unsent (\<lambda>a. 0) empty_ring [[1, 2]] [2] 1 0 0 (- 1) 0 =
      Some (0, \<lparr>write_cursor = 2, read_cursor = 0, buf_size = 4096,
                buffer = Some (memcpy (\<lambda>a. 0) 0 [1, 2] 0 2)\<rparr>)"
    apply (subst copy_unsent.simps)
    apply (simp add: w)
    apply (subst copy_unsent.simps)
    apply simp
    done
  have o: "output direct_conn = empty_ring" "use_write_buf direct_conn = 0"
    "fd (client direct_conn) = 5"
    by (simp_all add: direct_conn_def conn_of_input_def)
  have t: "total_bytes [2] 1 = 2"
    by (simp add: total_bytes_def)
  show ?thesis
    by (simp add: send_client_response_def send_client_response_direct_def o t l c Let_def)
qed

lemma drained_step2:
  assumes "output c = \<lparr>write_cursor = 2, read_cursor = 0, buf_size = 4096, buffer = Some m\<rparr>"
    and "use_write_buf c = 1" and "fd (client c) = 5"
  shows "\<exists>c2 n2.
     handle_client_writebuf (Write_watcher 5) c n (1, EAGAIN) = Some (0, c2, n2) \<and>
     output c2 = \<lparr>write_cursor = 2, read_cursor = 1, buf_size = 4096, buffer = Some m\<rparr> \<and>
     use_write_buf c2 = 1 \<and> fd (client c2) = 5"
  using assms
  by (simp add: handle_client_writebuf_def circbuf_advance_read_def Let_def)

lemma drained_step3:
  assumes "output c = \<lparr>write_cursor = 2, read_cursor = 1, buf_size = 4096, buffer = Some m\<rparr>"
    and "use_write_buf c = 1" and "fd (client c) = 5"
  shows "\<exists>c3 n3 m3.
     send_client_response (\<lambda>a. 0) c n [replicate 4094 7] [4094] 1 (0, EAGAIN) = Some (0, c3, n3) \<and>
     output c3 = \<lparr>write_cursor = 4096, read_cursor = 1, buf_size = 4096, buffer = Some m3\<rparr> \<and>
     use_write_buf c3 = 1 \<and> fd (client c3) = 5"
proof -
  have w: "circbuf_write (\<lambda>a. 0) (output c) (replicate 4094 7) 4094 =
      Some (0, \<lparr>write_cursor = 4096, read_cursor = 1, buf_size = 4096,
                buffer = Some (memcpy m 2 (replicate 4094 7) 0 4094)\<rparr>)"
    by (simp add: assms(1) circbuf_write_def circbuf_write_grow_enough circbuf_avail_buf_def Let_def)
  have c: "copy_buffers (\<lambda>a. 0) (output c) [replicate 4094 7] [4094] 1 0 =
      Some (0, \<lparr>write_cursor = 4096, read_cursor = 1, buf_size = 4096,
                buffer = Some (memcpy m 2 (replicate 4094 7) 0 4094)\<rparr>)"
    apply (subst copy_buffers.simps)
    apply (simp add: w)
    apply (subst copy_buffers.simps)
    apply simp
    done
  show ?thesis
    using assms(2,3)
    by (simp add: send_client_response_def send_client_response_buffered_def c Let_def)
qed

lemma drained_step4:
  assumes "output c = \<lparr>write_cursor = 4096, read_cursor = 1, buf_size = 4096, buffer = Some m\<rparr>"
    and "fd (client c) = 5"
  shows "\<exists>c4 n4.
     handle_client_writebuf (Write_watcher 5) c n (4095, EAGAIN) = Some (0, c4, n4) \<and>
     length (readable (output c)) = 4095 \<and>
     syscalls n4 = syscalls n @ [Sys_writev 5 (readable (output c))] \<and>
     use_write_buf c4 = use_write_buf c \<and>
     events n4 = \<lparr>event_type = SCHEDULE_WATCHER, watcher = Some (Write_watcher 5)\<rparr> # events n \<and>
     read_cursor (output c4) = 0 \<and> write_cursor (output c4) = 4096 \<and>
     length (readable (output c4)) = 4096"
proof -
  have r: "readable (output c) = mem_read m 1 4095"
    by (simp add: assms(1) readable_def circbuf_setup_writev_iovec_def iovec_bytes_def)
  have t: "transmitted 4095 (mem_read m 1 4095) = mem_read m 1 4095"
    by (simp add: transmitted_def)
  show ?thesis
    using assms
    by (simp add: handle_client_writebuf_def r t circbuf_advance_read_def schedule_async_def
        LOCK_def UNLOCK_def Let_def)
      (simp add: readable_def circbuf_setup_writev_iovec_def iovec_bytes_def t)
qed

text \<open>
  Claim C7 asks that, when the write watcher fires and \<^verbatim>\<open>writev\<close> reports \<open>w > 0\<close>
  bytes, the connection goes back to direct writes and queues no event if the ring is
  then empty. After a response of 2 bytes queued on \<^verbatim>\<open>EAGAIN\<close>, 1 byte drained and a
  buffered response of 4094 bytes, \<^verbatim>\<open>circbuf_write\<close> has left the write cursor at
  \<^verbatim>\<open>buf_size\<close> (4096) with the read cursor at 1. The write watcher then transmits all
  4095 queued bytes; the read cursor becomes 0, which is not the write cursor, so
  \<^verbatim>\<open>use_write_buf\<close> stays 1, a \<^verbatim>\<open>SCHEDULE_WATCHER\<close> event is queued, and the
  vectors of the ring describe 4096 bytes where none is queued.
\<close>

theorem write_watcher_drained_ring_stays_buffered:
  "\<exists>c3 n3 c4 n4.
     drained_run = Some (c3, n3, c4, n4) \<and>
     use_write_buf c3 = 1 \<and>
     read_cursor (output c3) = 1 \<and> write_cursor (output c3) = 4096 \<and>
     buf_size (output c3) = 4096 \<and>
     length (readable (output c3)) = 4095 \<and>
     syscalls n4 = syscalls n3 @ [Sys_writev 5 (readable (output c3))] \<and>
     use_write_buf c4 = 1 \<and>
     events n4 = \<lparr>event_type = SCHEDULE_WATCHER, watcher = Some (Write_watcher 5)\<rparr> # events n3 \<and>
     read_cursor (output c4) = 0 \<and> write_cursor (output c4) = 4096 \<and>
     length (readable (output c4)) = 4096"
proof -
  from drained_step1 obtain c1 n1 m1 where
    s1: "send_client_response (\<lambda>a. 0) direct_conn idle_net [[1, 2]] [2] 1 (- 1, EAGAIN) = Some (0, c1, n1)"
    and o1: "output c1 = \<lparr>write_cursor = 2, read_cursor = 0, buf_size = 4096, buffer = Some m1\<rparr>"
      "use_write_buf c1 = 1" "fd (client c1) = 5"
    by blast
  from drained_step2 [OF o1, of n1] obtain c2 n2 where
    s2: "handle_client_writebuf (Write_watcher 5) c1 n1 (1, EAGAIN) = Some (0, c2, n2)"
    and o2: "output c2 = \<lparr>write_cursor = 2, read_cursor = 1, buf_size = 4096, buffer = Some m1\<rparr>"
      "use_write_buf c2 = 1" "fd (client c2) = 5"
    by blast
  from drained_step3 [OF o2, of n2] obtain c3 n3 m3 where
    s3: "send_client_response (\<lambda>a. 0) c2 n2 [replicate 4094 7] [4094] 1 (0, EAGAIN) = Some (0, c3, n3)"
    and o3: "output c3 = \<lparr>write_cursor = 4096, read_cursor = 1, buf_size = 4096, buffer = Some m3\<rparr>"
      "use_write_buf c3 = 1" "fd (client c3) = 5"
    by blast
  from drained_step4 [OF o3(1,3), of n3] obtain c4 n4 where
    s4: "handle_client_writebuf (Write_watcher 5) c3 n3 (4095, EAGAIN) = Some (0, c4, n4)"
    and o4: "length (readable (output c3)) = 4095"
      "syscalls n4 = syscalls n3 @ [Sys_writev 5 (readable (output c3))]"
      "use_write_buf c4 = use_write_buf c3"
      "events n4 = \<lparr>event_type = SCHEDULE_WATCHER, watcher = Some (Write_watcher 5)\<rparr> # events n3"
      "read_cursor (output c4) = 0" "write_cursor (output c4) = 4096"
      "length (readable (output c4)) = 4096"
    by blast
  have d: "drained_run = Some (c3, n3, c4, n4)"
    by (simp add: drained_run_def s1 s2 s3 s4)
  have f: "read_cursor (output c3) = 1" "write_cursor (output c3) = 4096"
    "buf_size (output c3) = 4096" "use_write_buf c4 = 1"
    using o3 o4(3) by simp_all
  from d o3(2) o4 f show ?thesis by blast
qed

text \<open>
  Where the loop of \<^verbatim>\<open>send_client_response_direct\<close> leaves \<^verbatim>\<open>index\<close> and
  \<^verbatim>\<open>skip_bytes\<close>: at the first buffer with nothing skipped when the short write ended
  inside it; and, of two buffers, at the first buffer again, with its size as
  \<^verbatim>\<open>skip_bytes\<close>, when the short write ended inside the second.
\<close>

lemma left_off_first_buffer:
  "0 < num_bufs \<Longrightarrow> sent < buf_sizes ! 0 \<Longrightarrow> left_off buf_sizes num_bufs sent 0 0 = (0, 0)"
  by (subst left_off.simps) (simp add: Let_def)

lemma left_off_second_buffer:
  assumes "a \<le> sent" and "sent < a + b"
  shows "left_off [a, b] 2 sent 0 0 = (0, a)"
proof -
  have "left_off [a, b] 2 sent 0 0 = left_off [a, b] 2 sent 1 a"
    using assms by (subst left_off.simps) (simp add: Let_def)
  also have "\<dots> = (0, a)"
    using assms by (subst left_off.simps) (simp add: Let_def)
  finally show ?thesis .
qed

text \<open>
  Claim C1 asks that after a short write of \<open>s\<close> bytes the output ring receives the
  unsent suffix from offset \<open>s\<close>. When \<open>s\<close> reaches past the first buffer,
  \<^verbatim>\<open>send_client_response_direct\<close> steps \<^verbatim>\<open>index\<close> back by one and queues the
  previous buffer again: of the buffers \<open>ab\<close> and \<open>cd\<close> with three bytes
  transmitted, \<open>bcd\<close> goes into the ring where \<open>d\<close> is unsent. The switch to
  buffered writes and the scheduling of the write watcher happen as the claim says.
\<close>

theorem send_client_response_direct_short_write_resends:
  "\<exists>conn' nc'.
     send_client_response (\<lambda>a. 0) direct_conn idle_net [[97, 98], [99, 100]] [2, 2] 2 (3, EAGAIN)
       = Some (0, conn', nc') \<and>
     syscalls nc' = [Sys_writev 5 [97, 98, 99]] \<and>
     readable (output conn') = [98, 99, 100] \<and>
     use_write_buf conn' = 1 \<and>
     events nc' = [\<lparr>event_type = SCHEDULE_WATCHER, watcher = Some (Write_watcher 5)\<rparr>]"
proof -
  have l: "left_off [2, 2] 2 3 0 0 = (0, 2)"
    apply (subst left_off.simps)
    apply (simp add: Let_def)
    apply (subst left_off.simps)
    apply (simp add: Let_def)
    done
  have w1: "circbuf_write (\<lambda>a. 0) empty_ring [98] 1 =
      Some (0, \<lparr>write_cursor = 1, read_cursor = 0, buf_size = 4096,
                buffer = Some (memcpy (\<lambda>a. 0) 0 [98] 0 1)\<rparr>)"
    by (simp add: circbuf_write_def circbuf_write_grow_enough circbuf_avail_buf_def empty_ring_def Let_def)
  have w2: "circbuf_write (\<lambda>a. 0) \<lparr>write_cursor = 1, read_cursor = 0, buf_size = 4096,
                buffer = Some (memcpy (\<lambda>a. 0) 0 [98] 0 1)\<rparr> [99, 100] 2 =
      Some (0, \<lparr>write_cursor = 3, read_cursor = 0, buf_size = 4096,
                buffer = Some (memcpy (memcpy (\<lambda>a. 0) 0 [98] 0 1) 1 [99, 100] 0 2)\<rparr>)"
    by (simp add: circbuf_write_def circbuf_write_grow_enough circbuf_avail_buf_def Let_def)
  have c: "copy_unsent (\<lambda>a. 0) empty_ring [[97, 98], [99, 100]] [2, 2] 2 0 2 3 0 =
      Some (0, \<lparr>write_cursor = 3, read_cursor = 0, buf_size = 4096,
                buffer = Some (memcpy (memcpy (\<lambda>a. 0) 0 [98] 0 1) 1 [99, 100] 0 2)\<rparr>)"
    apply (subst copy_unsent.simps)
    apply (simp add: w1)
    apply (subst copy_unsent.simps)
    apply (simp add: w2)
    apply (subst copy_unsent.simps)
    apply simp
    done
  have r: "readable \<lparr>write_cursor = 3, read_cursor = 0, buf_size = 4096,
                buffer = Some (memcpy (memcpy (\<lambda>a. 0) 0 [98] 0 1) 1 [99, 100] 0 2)\<rparr> = [98, 99, 100]"
    by (simp add: readable_def circbuf_setup_writev_iovec_def iovec_bytes_def mem_read_def memcpy_def upt_3)
  have o: "output direct_conn = empty_ring" "use_write_buf direct_conn = 0"
    "fd (client direct_conn) = 5" "fd (write_client direct_conn) = 5"
    by (simp_all add: direct_conn_def conn_of_input_def)
  have t: "total_bytes [2, 2] 2 = 4"
    "offered_bytes [[97, 98], [99, 100]] [2, 2] 2 = [97, 98, 99, 100]"
    by (simp_all add: total_bytes_def offered_bytes_def upt_2)
  show ?thesis
    by (simp add: send_client_response_def send_client_response_direct_def o t l c r
        transmitted_def schedule_async_def LOCK_def UNLOCK_def write_client_ref_def idle_net_def Let_def)
qed

section \<open>Reuse of a connection record\<close>

text \<open>
  Claim C10. \<^verbatim>\<open>close_client_connection\<close> leaves \<^verbatim>\<open>use_write_buf\<close> as it is. When
  \<^verbatim>\<open>handle_new_client\<close> finds a record in the slot of the accepted descriptor, the
  record it leaves there has the \<^verbatim>\<open>use_write_buf\<close> of the old one; of the two rings
  it sets the cursors to 0 and keeps buffer and size, allocating a buffer of the
  initial size only where the old one was freed.
\<close>

theorem handle_new_client_keeps_use_write_buf:
  assumes fd0: "0 \<le> client_fd" and fits: "client_fd < conn_list_size netconf"
    and len: "length (conns netconf) = nat (conn_list_size netconf)"
    and slot: "conns netconf ! nat client_fd = Some old"
    and flags: "0 \<le> sock_flags" "setfl_res = 0"
  shows "use_write_buf (fst (close_client_connection old netconf)) = use_write_buf old \<and>
         (\<exists>nc' conn'.
            handle_new_client fresh listen_fd netconf client_fd sock_flags setfl_res = Some nc' \<and>
            conns nc' ! nat client_fd = Some conn' \<and>
            use_write_buf conn' = use_write_buf old \<and>
            read_cursor (input conn') = 0 \<and> write_cursor (input conn') = 0 \<and>
            read_cursor (output conn') = 0 \<and> write_cursor (output conn') = 0 \<and>
            (if buffer (input old) = None
             then buffer (input conn') = Some fresh \<and> buf_size (input conn') = INIT_CONN_BUF_SIZE
             else buffer (input conn') = buffer (input old) \<and>
                  buf_size (input conn') = buf_size (input old)) \<and>
            (if buffer (output old) = None
             then buffer (output conn') = Some fresh \<and> buf_size (output conn') = INIT_CONN_BUF_SIZE
             else buffer (output conn') = buffer (output old) \<and>
                  buf_size (output conn') = buf_size (output old)))"
proof -
  have g: "get_fd_conn client_fd netconf = Some (old, netconf)"
    using fits slot by (simp add: get_fd_conn_def)
  have n: "nat client_fd < length (conns netconf)"
    using fd0 fits len by simp
  have c: "client_fd \<noteq> - 1" using fd0 by simp
  show ?thesis
    using g n c flags
    by (simp add: handle_new_client_def set_client_sockopts_def close_client_connection_def
        schedule_async_def LOCK_def UNLOCK_def init_circular_buffer_def circbuf_alloc_def Let_def)
qed

text \<open>
  The example: a connection closed in the buffered state leaves \<^verbatim>\<open>use_write_buf = 1\<close>
  in slot 5, and the next client accepted on descriptor 5 starts with it.
\<close>

lemma closed_buffered:
  "fst (close_client_connection buffered_conn idle_net) =
     buffered_conn\<lparr>should_schedule := 0,
        output := \<lparr>write_cursor = 0, read_cursor = 0, buf_size = 4096,
                   buffer = Some (\<lambda>a. if a < 3 then word_of_nat a + 1 else 0)\<rparr>\<rparr>"
  by (simp add: close_client_connection_def buffered_conn_def conn_of_input_def circbuf_reset_def
      empty_ring_def INIT_CONN_BUF_SIZE_def Let_def)

theorem handle_new_client_keeps_use_write_buf_witness:
  "use_write_buf buffered_conn = 1 \<and>
   conns reused_net ! 5 = Some (fst (close_client_connection buffered_conn idle_net)) \<and>
   (\<exists>nc' conn'.
      handle_new_client (\<lambda>a. 0) 3 reused_net 5 2 0 = Some nc' \<and>
      conns nc' ! 5 = Some conn' \<and> use_write_buf conn' = 1 \<and>
      read_cursor (output conn') = 0 \<and> write_cursor (output conn') = 0 \<and>
      buf_size (output conn') = 4096)"
proof -
  define old where "old = fst (close_client_connection buffered_conn idle_net)"
  have u: "use_write_buf buffered_conn = 1" by (simp add: buffered_conn_def)
  have o: "use_write_buf old = 1" "buffer (output old) \<noteq> None" "buf_size (output old) = 4096"
    unfolding old_def closed_buffered by (simp_all add: buffered_conn_def)
  have l: "length (conns reused_net) = nat (conn_list_size reused_net)"
    "(5::int) < conn_list_size reused_net"
    by (simp_all add: reused_net_def idle_net_def INIT_CONN_LIST_SIZE_def)
  have s: "conns reused_net ! nat 5 = Some old"
    by (simp add: reused_net_def idle_net_def INIT_CONN_LIST_SIZE_def old_def)
  from handle_new_client_keeps_use_write_buf [of 5 reused_net old 2 0 "\<lambda>a. 0" 3, OF _ l(2) l(1) s]
  show ?thesis using o u s by (auto simp: old_def)
qed

section \<open>The worker loop rechecks \<^verbatim>\<open>should_run\<close>\<close>

lemma update_conn_fields [simp]:
  "should_run (update_conn d f nc) = should_run nc"
  "ev_run_calls (update_conn d f nc) = ev_run_calls nc"
  "lock_trace (update_conn d f nc) = lock_trace nc"
  "events (update_conn d f nc) = events nc"
  by (simp_all add: update_conn_def split: option.splits)

lemma set_active_fields [simp]:
  "should_run (set_active w a nc) = should_run nc"
  "ev_run_calls (set_active w a nc) = ev_run_calls nc"
  "lock_trace (set_active w a nc) = lock_trace nc"
  "events (set_active w a nc) = events nc"
  by (simp_all add: set_active_def split: watcher_ref.splits)

lemma drain_events_fields [simp]:
  "should_run (drain_events es nc) = should_run nc"
  "ev_run_calls (drain_events es nc) = ev_run_calls nc"
  "lock_trace (drain_events es nc) = lock_trace nc"
  by (induction es arbitrary: nc;
      simp add: ev_io_start_def split: ASYNC_EVENT_TYPE.splits option.splits)+

lemma handle_async_event_fields [simp]:
  "should_run (handle_async_event nc) = should_run nc"
  "ev_run_calls (handle_async_event nc) = ev_run_calls nc"
  by (simp_all add: handle_async_event_def LOCK_def UNLOCK_def Let_def)

lemma run_callbacks_fields [simp]:
  "should_run (snd (run_callbacks cbs s)) = should_run (snd s)"
  "ev_run_calls (snd (run_callbacks cbs s)) = ev_run_calls (snd s)"
  by (induction cbs s rule: run_callbacks.induct;
      simp add: prepare_event_def ev_io_stop_def split: prod.splits)+

lemma run_callbacks_calls:
  "run_callbacks cbs s = (data, nc) \<Longrightarrow> ev_run_calls nc = ev_run_calls (snd s)"
  using run_callbacks_fields(2) [of cbs s] by simp

text \<open>
  In \<^verbatim>\<open>src/bloomd/networking.c\<close> the worker runs the event loop exactly if
  \<^verbatim>\<open>should_run\<close> is non-zero when it is read again under the leader lock;
  otherwise it releases the lock and leaves the loop.
\<close>

lemma worker_leader_section_recheck:
  "worker_leader_section tid it (registered, netconf) = (x, data, registered1, nc1) \<Longrightarrow>
   (if should_run netconf \<noteq> 0 \<and> \<not> it_stop it
    then x = Continue \<and> ev_run_calls nc1 = Suc (ev_run_calls netconf)
    else x = Break \<and> ev_run_calls nc1 = ev_run_calls netconf \<and>
         lock_trace nc1 = lock_trace netconf @ [Acquire Leader_lock, Release Leader_lock])"
  by (auto simp: worker_leader_section_def ev_run_once_def LOCK_def UNLOCK_def Let_def
      split: if_splits prod.splits dest!: run_callbacks_calls)

text \<open>
  Claim C6 asks for that behaviour of \<^verbatim>\<open>start_networking_worker\<close>. The second
  definition of the function, in \<^verbatim>\<open>unnamed/part_000\<close>, tests \<^verbatim>\<open>should_run\<close>
  without the negation: with \<^verbatim>\<open>should_run = 1\<close> the worker releases the leader lock
  and leaves the loop on its first pass, and never calls \<^verbatim>\<open>ev_run\<close>.
\<close>

theorem worker_part_000_exits_when_should_run:
  "should_run idle_net = 1 \<and>
   (\<exists>data nc1.
      worker_leader_section_part_000 1 accept_pass
        (0, \<lparr>ud_watcher = None, ready_events = 0\<rparr>, idle_net) = (Break, data, 1, nc1) \<and>
      ev_run_calls nc1 = ev_run_calls idle_net \<and>
      lock_trace nc1 = [Acquire Leader_lock, Release Leader_lock])"
  by (simp add: worker_leader_section_part_000_def idle_net_def accept_pass_def LOCK_def UNLOCK_def
      Let_def)

text \<open>In general, the test of that file is the opposite of the one claimed.\<close>

lemma worker_part_000_recheck_inverted:
  "worker_leader_section_part_000 tid it (registered, data0, netconf) = (x, data, registered1, nc1) \<Longrightarrow>
   (if should_run netconf \<noteq> 0 \<and> \<not> it_stop it
    then x = Break \<and> ev_run_calls nc1 = ev_run_calls netconf
    else x = Continue \<and> ev_run_calls nc1 = Suc (ev_run_calls netconf))"
  by (auto simp: worker_leader_section_part_000_def ev_run_once_def LOCK_def UNLOCK_def Let_def
      split: if_splits prod.splits dest!: run_callbacks_calls)

section \<open>Lock nesting: traces\<close>

lemma follows_rule_append:
  "follows_rule rule held (t1 @ t2) \<longleftrightarrow>
     follows_rule rule held t1 \<and> follows_rule rule (held_after held t1) t2"
  by (induction rule held t1 rule: follows_rule.induct) auto

lemma held_after_append: "held_after held (t1 @ t2) = held_after (held_after held t1) t2"
  by (induction held t1 rule: held_after.induct) auto

lemma keeps_rule_same: "lock_trace nc' = lock_trace nc \<Longrightarrow> keeps_rule held nc nc'"
  by (simp add: keeps_rule_def)

lemma keeps_rule_trans:
  assumes "keeps_rule held a b" and "keeps_rule held b c"
  shows "keeps_rule held a c"
proof -
  from assms(1) obtain t1 where t1: "lock_trace b = lock_trace a @ t1"
    "follows_rule event_lock_innermost held t1" "held_after held t1 = held"
    by (auto simp: keeps_rule_def)
  from assms(2) obtain t2 where t2: "lock_trace c = lock_trace b @ t2"
    "follows_rule event_lock_innermost held t2" "held_after held t2 = held"
    by (auto simp: keeps_rule_def)
  have "lock_trace c = lock_trace a @ (t1 @ t2)" using t1(1) t2(1) by simp
  moreover have "follows_rule event_lock_innermost held (t1 @ t2)"
    using t1 t2 by (simp add: follows_rule_append)
  moreover have "held_after held (t1 @ t2) = held"
    using t1 t2 by (simp add: held_after_append)
  ultimately show ?thesis unfolding keeps_rule_def by blast
qed

lemma keeps_rule_cong:
  "lock_trace a = lock_trace a' \<Longrightarrow> lock_trace b = lock_trace b' \<Longrightarrow>
   keeps_rule held a b \<Longrightarrow> keeps_rule held a' b'"
  by (simp add: keeps_rule_def)

lemma keeps_rule_bracket:
  assumes "event_lock_innermost l held" and "keeps_rule (l # held) (LOCK l nc) nc1"
  shows "keeps_rule held nc (UNLOCK l nc1)"
proof -
  from assms(2) obtain t where t: "lock_trace nc1 = (lock_trace nc @ [Acquire l]) @ t"
    "follows_rule event_lock_innermost (l # held) t" "held_after (l # held) t = l # held"
    by (auto simp: keeps_rule_def LOCK_def)
  have "lock_trace (UNLOCK l nc1) = lock_trace nc @ (Acquire l # t @ [Release l])"
    using t(1) by (simp add: UNLOCK_def)
  moreover have "follows_rule event_lock_innermost held (Acquire l # t @ [Release l])"
    using assms(1) t(2,3) by (simp add: follows_rule_append)
  moreover have "held_after held (Acquire l # t @ [Release l]) = held"
    using t(3) by (simp add: held_after_append)
  ultimately show ?thesis unfolding keeps_rule_def by blast
qed

lemma lock_trace_basic [simp]:
  "lock_trace (LOCK l nc) = lock_trace nc @ [Acquire l]"
  "lock_trace (UNLOCK l nc) = lock_trace nc @ [Release l]"
  "lock_trace (schedule_async nc et w) = lock_trace nc @ [Acquire Event_lock, Release Event_lock]"
  by (simp_all add: schedule_async_def LOCK_def UNLOCK_def Let_def)

lemma close_client_connection_trace:
  "close_client_connection conn nc = (c, n) \<Longrightarrow> lock_trace n = lock_trace nc"
  by (auto simp: close_client_connection_def)

lemma keeps_rule_suffix:
  "lock_trace nc' = lock_trace nc @ t \<Longrightarrow> follows_rule event_lock_innermost held t \<Longrightarrow>
   held_after held t = held \<Longrightarrow> keeps_rule held nc nc'"
  unfolding keeps_rule_def by blast

lemma send_direct_trace:
  assumes "send_client_response_direct fresh conn nc bufs sizes n wr = Some (res, conn', nc')"
  shows "lock_trace nc' = lock_trace nc \<or>
         lock_trace nc' = lock_trace nc @ [Acquire Event_lock, Release Event_lock]"
  using assms
  by (auto simp: send_client_response_direct_def Let_def
      split: if_splits prod.splits option.splits dest!: close_client_connection_trace)

lemma send_direct_keeps:
  assumes "send_client_response_direct fresh conn nc bufs sizes n wr = Some (res, conn', nc')"
  shows "keeps_rule [] nc nc'"
  using send_direct_trace [OF assms]
  by (auto intro: keeps_rule_same keeps_rule_suffix)

lemma send_buffered_keeps:
  assumes "send_client_response_buffered fresh conn nc bufs sizes n wr = Some (res, conn', nc')"
  shows "keeps_rule [] nc nc'"
proof (cases "use_write_buf conn = 0")
  case True
  with assms have "send_client_response_direct fresh conn
      (UNLOCK (output_lock conn) (LOCK (output_lock conn) nc)) bufs sizes n wr = Some (res, conn', nc')"
    by (simp add: send_client_response_buffered_def Let_def)
  then have "keeps_rule [] (UNLOCK (output_lock conn) (LOCK (output_lock conn) nc)) nc'"
    by (rule send_direct_keeps)
  moreover have "keeps_rule [] nc (UNLOCK (output_lock conn) (LOCK (output_lock conn) nc))"
    by (rule keeps_rule_suffix [where t = "[Acquire (output_lock conn), Release (output_lock conn)]"])
      simp_all
  ultimately show ?thesis using keeps_rule_trans by blast
next
  case False
  with assms have "nc' = UNLOCK (output_lock conn) (LOCK (output_lock conn) nc)"
    by (auto simp: send_client_response_buffered_def Let_def split: option.splits)
  then show ?thesis
    by (intro keeps_rule_suffix [where t = "[Acquire (output_lock conn), Release (output_lock conn)]"])
      simp_all
qed

lemma send_client_response_keeps:
  assumes "send_client_response fresh conn nc bufs sizes n wr = Some (res, conn', nc')"
  shows "keeps_rule [] nc nc'"
  using assms
  by (auto simp: send_client_response_def keeps_rule_same split: if_splits
      dest: send_direct_keeps send_buffered_keeps)

lemma handle_client_writebuf_trace:
  assumes "handle_client_writebuf watch conn nc wr = Some (res, conn', nc')"
  shows "lock_trace nc' = lock_trace nc @ [Acquire (output_lock conn), Release (output_lock conn)] \<or>
         lock_trace nc' = lock_trace nc @ [Acquire (output_lock conn), Acquire Event_lock,
                                            Release Event_lock, Release (output_lock conn)]"
  using assms
  by (auto simp: handle_client_writebuf_def Let_def
      split: if_splits prod.splits option.splits dest!: close_client_connection_trace)

lemma handle_client_writebuf_keeps:
  assumes "handle_client_writebuf watch conn nc wr = Some (res, conn', nc')"
  shows "keeps_rule [] nc nc'"
  using handle_client_writebuf_trace [OF assms]
  by (auto simp: output_lock_def intro!: keeps_rule_suffix)

lemma get_fd_conn_trace:
  assumes "get_fd_conn client_fd nc = Some (conn, nc')"
  shows "lock_trace nc' = lock_trace nc \<or>
         lock_trace nc' = lock_trace nc @ [Acquire Conns_lock, Release Conns_lock]"
  using assms
  by (auto simp: get_fd_conn_def Let_def split: if_splits option.splits)

lemma set_client_sockopts_trace:
  "set_client_sockopts client_fd fl sr nc = (res, nc') \<Longrightarrow> lock_trace nc' = lock_trace nc"
  by (auto simp: set_client_sockopts_def split: if_splits)

lemma handle_new_client_trace:
  assumes "handle_new_client fresh listen_fd nc client_fd fl sr = Some nc'"
  shows "lock_trace nc' = lock_trace nc \<or>
         lock_trace nc' = lock_trace nc @ [Acquire Event_lock, Release Event_lock] \<or>
         lock_trace nc' = lock_trace nc @ [Acquire Conns_lock, Release Conns_lock,
                                            Acquire Event_lock, Release Event_lock]"
  using assms
  by (auto simp: handle_new_client_def Let_def
      split: if_splits prod.splits option.splits
      dest!: set_client_sockopts_trace get_fd_conn_trace)

lemma handle_new_client_keeps:
  assumes "handle_new_client fresh listen_fd nc client_fd fl sr = Some nc'"
  shows "keeps_rule [] nc nc'"
  using handle_new_client_trace [OF assms]
  by (auto intro!: keeps_rule_suffix)

lemma handle_client_data_trace:
  assumes "handle_client_data fresh conn nc rr incoming = Some (res, conn', nc')"
  shows "lock_trace nc' = lock_trace nc"
  using assms
  by (auto simp: handle_client_data_def Let_def
      split: if_splits prod.splits option.splits dest!: close_client_connection_trace)

lemma handle_client_connect_keeps:
  "handle_client_connect fresh cs conn nc = Some (conn', nc') \<Longrightarrow> keeps_rule [] nc nc'"
proof (induction fresh cs conn nc rule: handle_client_connect.induct)
  case (1 fresh conn netconf)
  then show ?case by (simp add: keeps_rule_same)
next
  case (2 fresh t cs conn netconf)
  then show ?case by simp
next
  case (3 fresh bufs sizes n wr cs conn netconf)
  from "3.prems" obtain res conn1 nc1 where
    s: "send_client_response fresh conn netconf bufs sizes n wr = Some (res, conn1, nc1)"
    and r: "handle_client_connect fresh cs conn1 nc1 = Some (conn', nc')"
    by (auto split: option.splits)
  from "3.IH" [OF s refl refl r] send_client_response_keeps [OF s]
  show ?case by (blast intro: keeps_rule_trans)
next
  case (4 fresh cs conn netconf)
  obtain conn1 nc1 where c: "close_client_connection conn netconf = (conn1, nc1)"
    by (cases "close_client_connection conn netconf")
  with "4.prems" have r: "handle_client_connect fresh cs conn1 nc1 = Some (conn', nc')"
    by simp
  from "4.IH" [OF c [symmetric] r] close_client_connection_trace [OF c]
  show ?case by (blast intro: keeps_rule_trans keeps_rule_same)
qed

lemma store_conn_trace [simp]: "lock_trace (store_conn d conn nc) = lock_trace nc"
  by (simp add: store_conn_def)

lemma invoke_event_handler_keeps:
  assumes "invoke_event_handler fresh env data nc = Some nc'"
  shows "keeps_rule [] nc nc'"
proof -
  have sched: "keeps_rule [] a (schedule_async a et w)" for a et w
    by (rule keeps_rule_suffix [where t = "[Acquire Event_lock, Release Event_lock]"]) simp_all
  have st: "keeps_rule [] a b \<Longrightarrow> keeps_rule [] a (store_conn d c b)" for a b d c
    by (erule keeps_rule_trans) (simp add: keeps_rule_same)
  from assms obtain w where w: "ud_watcher data = Some w"
    by (auto simp: invoke_event_handler_def split: option.splits)
  show ?thesis
  proof (cases "w = Tcp_listener")
    case True
    with assms w obtain nc1 where
      h: "handle_new_client fresh (fd (tcp_client nc)) nc (env_accept_fd env) (env_sock_flags env)
            (env_setfl env) = Some nc1"
      and e: "nc' = schedule_async nc1 SCHEDULE_WATCHER (Some w)"
      by (auto simp: invoke_event_handler_def split: option.splits)
    from handle_new_client_keeps [OF h] sched show ?thesis
      unfolding e by (blast intro: keeps_rule_trans)
  next
    case nt: False
    show ?thesis
    proof (cases "w = Udp_listener")
      case True
      with assms w nt show ?thesis
        by (simp add: invoke_event_handler_def keeps_rule_same)
    next
      case nu: False
      from assms w nt nu obtain d conn where wc: "watcher_conn w nc = Some (d, conn)"
        by (auto simp: invoke_event_handler_def split: option.splits)
      show ?thesis
      proof (cases "ready_events data AND EV_WRITE \<noteq> 0")
        case True
        with assms w nt nu wc obtain res conn1 nc1 where
          h: "handle_client_writebuf w conn nc (env_writev env) = Some (res, conn1, nc1)"
          and e: "nc' = store_conn d conn1 nc1"
          by (auto simp: invoke_event_handler_def split: option.splits)
        from handle_client_writebuf_keeps [OF h] show ?thesis
          unfolding e by (rule st)
      next
        case False
        with assms w nt nu wc obtain res conn1 nc1 conn2 nc2 where
          h: "handle_client_data fresh conn nc (env_readv env) (env_incoming env) = Some (res, conn1, nc1)"
          and c: "(if res = 0 then handle_client_connect fresh (env_request env) conn1 nc1
                   else Some (conn1, nc1)) = Some (conn2, nc2)"
          and e: "nc' = (if should_schedule conn2 \<noteq> 0
                         then schedule_async (store_conn d conn2 nc2) SCHEDULE_WATCHER (Some w)
                         else store_conn d conn2 nc2)"
          by (auto simp: invoke_event_handler_def Let_def split: option.splits if_splits)
        have k1: "keeps_rule [] nc nc1"
          using handle_client_data_trace [OF h] by (simp add: keeps_rule_same)
        have k2: "keeps_rule [] nc1 nc2"
          using c by (auto split: if_splits intro: keeps_rule_same handle_client_connect_keeps)
        have k3: "keeps_rule [] nc (store_conn d conn2 nc2)"
          using k1 k2 by (blast intro: st keeps_rule_trans)
        show ?thesis
          unfolding e using k3 sched by (auto intro: keeps_rule_trans)
      qed
    qed
  qed
qed

lemma handle_async_event_trace [simp]:
  "lock_trace (handle_async_event nc) = lock_trace nc @ [Acquire Event_lock, Release Event_lock]"
  by (simp add: handle_async_event_def Let_def LOCK_def UNLOCK_def)

lemma prepare_event_trace [simp]:
  "lock_trace (snd (prepare_event w revents s)) = lock_trace (snd s)"
  by (simp add: prepare_event_def ev_io_stop_def split: prod.splits)

lemma run_callbacks_keeps:
  "keeps_rule [Leader_lock] (snd s) (snd (run_callbacks cbs s))"
proof (induction cbs s rule: run_callbacks.induct)
  case (1 s)
  then show ?case by (simp add: keeps_rule_same)
next
  case (2 w revents cbs s)
  have "keeps_rule [Leader_lock] (snd s) (snd (prepare_event w revents s))"
    by (simp add: keeps_rule_same)
  with 2 show ?case by (auto intro: keeps_rule_trans)
next
  case (3 cbs s)
  have "keeps_rule [Leader_lock] (snd s) (handle_async_event ((snd s)\<lparr>async_pending := False\<rparr>))"
    by (rule keeps_rule_suffix [where t = "[Acquire Event_lock, Release Event_lock]"]) simp_all
  with 3 show ?case by (auto intro: keeps_rule_trans)
qed

lemma worker_leader_section_keeps:
  assumes "worker_leader_section tid it (registered, nc) = (x, data, registered1, nc1)"
  shows "keeps_rule [] nc nc1"
proof -
  define nc2 where "nc2 =
    (if registered = 0
     then (LOCK Leader_lock (if it_stop it then nc\<lparr>should_run := 0\<rparr> else nc))
            \<lparr>threads := (threads nc)[nat (num_threads nc) := tid], num_threads := num_threads nc + 1\<rparr>
     else LOCK Leader_lock (if it_stop it then nc\<lparr>should_run := 0\<rparr> else nc))"
  have t2: "lock_trace nc2 = lock_trace nc @ [Acquire Leader_lock]"
    by (simp add: nc2_def)
  show ?thesis
  proof (cases "should_run nc2 = 0")
    case True
    with assms have "nc1 = UNLOCK Leader_lock nc2"
      by (auto simp: worker_leader_section_def Let_def nc2_def LOCK_def split: if_splits)
    then show ?thesis using t2
      by (intro keeps_rule_suffix [where t = "[Acquire Leader_lock, Release Leader_lock]"]) simp_all
  next
    case False
    define s3 where "s3 = ev_run_once (it_fired it) (\<lparr>ud_watcher = None, ready_events = 0\<rparr>, nc2)"
    from False assms have e: "nc1 = UNLOCK Leader_lock (snd s3)"
      by (auto simp: worker_leader_section_def Let_def nc2_def s3_def LOCK_def
          split: if_splits prod.splits)
    have "keeps_rule [Leader_lock] (nc2\<lparr>ev_run_calls := Suc (ev_run_calls nc2)\<rparr>) (snd s3)"
      unfolding s3_def ev_run_once_def
      using run_callbacks_keeps
        [of "(\<lparr>ud_watcher = None, ready_events = 0\<rparr>, nc2\<lparr>ev_run_calls := Suc (ev_run_calls nc2)\<rparr>)"
          "it_fired it"]
      by simp
    then obtain t where t: "lock_trace (snd s3) = lock_trace nc2 @ t"
      "follows_rule event_lock_innermost [Leader_lock] t" "held_after [Leader_lock] t = [Leader_lock]"
      by (auto simp: keeps_rule_def)
    have "lock_trace nc1 = lock_trace nc @ (Acquire Leader_lock # t @ [Release Leader_lock])"
      using e t(1) t2 by simp
    moreover have "follows_rule event_lock_innermost [] (Acquire Leader_lock # t @ [Release Leader_lock])"
      using t by (simp add: follows_rule_append)
    moreover have "held_after [] (Acquire Leader_lock # t @ [Release Leader_lock]) = []"
      using t by (simp add: held_after_append)
    ultimately show ?thesis by (rule keeps_rule_suffix)
  qed
qed

lemma worker_iteration_keeps:
  assumes "worker_iteration fresh tid it (registered, nc) = Some (x, registered1, nc1)"
  shows "keeps_rule [] nc nc1"
proof -
  obtain y data r2 nc2 where l: "worker_leader_section tid it (registered, nc) = (y, data, r2, nc2)"
    by (metis prod_cases4)
  have k: "keeps_rule [] nc nc2" using l by (rule worker_leader_section_keeps)
  show ?thesis
  proof (cases "y = Continue \<and> ud_watcher data \<noteq> None")
    case True
    with assms l have "invoke_event_handler fresh (it_handler it) data nc2 = Some nc1"
      by (auto simp: worker_iteration_def split: option.splits)
    from invoke_event_handler_keeps [OF this] k show ?thesis
      by (blast intro: keeps_rule_trans)
  next
    case False
    with assms l have "nc1 = nc2"
      by (cases y) (auto simp: worker_iteration_def split: if_splits)
    with k show ?thesis by simp
  qed
qed

lemma start_networking_worker_keeps:
  "start_networking_worker fresh tid its s = Some (st, nc') \<Longrightarrow> keeps_rule [] (snd s) nc'"
proof (induction its arbitrary: s)
  case Nil
  then show ?case by (auto simp: keeps_rule_same)
next
  case (Cons it its)
  show ?case
  proof (cases "should_run (snd s) = 0")
    case True
    with Cons.prems show ?thesis by (auto simp: keeps_rule_same)
  next
    case False
    with Cons.prems obtain x r1 nc1 where
      w: "worker_iteration fresh tid it (fst s, snd s) = Some (x, r1, nc1)"
      by (auto split: option.splits)
    have k: "keeps_rule [] (snd s) nc1" using w by (rule worker_iteration_keeps)
    show ?thesis
    proof (cases x)
      case Break
      with False Cons.prems w have "nc' = nc1" by simp
      with k show ?thesis by simp
    next
      case Continue
      with False Cons.prems w have "start_networking_worker fresh tid its (r1, nc1) = Some (st, nc')"
        by simp
      from Cons.IH [OF this] k show ?thesis
        by (auto intro: keeps_rule_trans)
    qed
  qed
qed

section \<open>Lock nesting: the rule of the specification and the rule of the code\<close>

text \<open>
  Claim C8 says that no thread acquires one of the locks while it holds another, and
  in particular that the event lock is never acquired under a connection's output
  lock. Both fail: \<^verbatim>\<open>handle_client_writebuf\<close> calls \<^verbatim>\<open>schedule_async\<close>, which
  takes the event lock, before it releases the output lock; and the async callback
  \<^verbatim>\<open>handle_async_event\<close> takes the event lock inside \<^verbatim>\<open>ev_run\<close>, which the
  worker calls under the leader lock.
\<close>

theorem lock_nesting_counterexample:
  "(\<exists>conn' nc'.
      handle_client_writebuf (Write_watcher 5) buffered_conn idle_net (2, EAGAIN) = Some (0, conn', nc') \<and>
      lock_trace nc' = [Acquire (Output_lock 5), Acquire Event_lock,
                        Release Event_lock, Release (Output_lock 5)] \<and>
      \<not> follows_rule never_nested [] (lock_trace nc')) \<and>
   (\<exists>data nc'.
      worker_leader_section 1 async_pass (0, busy_net) = (Continue, data, 1, nc') \<and>
      lock_trace nc' = [Acquire Leader_lock, Acquire Event_lock,
                        Release Event_lock, Release Leader_lock] \<and>
      \<not> follows_rule never_nested [] (lock_trace nc'))"
proof -
  have a: "\<exists>conn' nc'.
      handle_client_writebuf (Write_watcher 5) buffered_conn idle_net (2, EAGAIN) = Some (0, conn', nc') \<and>
      lock_trace nc' = [Acquire (Output_lock 5), Acquire Event_lock,
                        Release Event_lock, Release (Output_lock 5)]"
    by (simp add: handle_client_writebuf_def circbuf_advance_read_def output_lock_def
        buffered_conn_def conn_of_input_def idle_net_def Let_def)
  have b: "\<exists>data nc'.
      worker_leader_section 1 async_pass (0, busy_net) = (Continue, data, 1, nc') \<and>
      lock_trace nc' = [Acquire Leader_lock, Acquire Event_lock,
                        Release Event_lock, Release Leader_lock]"
    by (simp add: worker_leader_section_def ev_run_once_def async_pass_def busy_net_def idle_net_def
        LOCK_def UNLOCK_def handle_async_event_def Let_def split: prod.splits)
  from a b show ?thesis by fastforce
qed

text \<open>
  Claim C8, amended. In every run of the worker loop, and in the first two statements of
  \<^verbatim>\<open>shutdown_networking\<close>, a lock is acquired while another is held only in this
  way: the event lock is acquired while the leader lock or the output lock of a
  connection is the one lock held. Nothing is acquired while the event lock is held,
  and every lock acquired is released again.
\<close>

theorem lock_nesting_event_lock_innermost:
  assumes "start_networking_worker fresh tid its (registered, netconf) = Some (st, nc')"
  shows "(\<exists>t. lock_trace nc' = lock_trace netconf @ t \<and>
              follows_rule event_lock_innermost [] t \<and> held_after [] t = []) \<and>
         (\<exists>t. lock_trace (shutdown_networking_begin netconf) = lock_trace netconf @ t \<and>
              follows_rule event_lock_innermost [] t \<and> held_after [] t = [])"
proof -
  have "keeps_rule [] netconf nc'"
    using start_networking_worker_keeps [OF assms] by simp
  moreover have "lock_trace (shutdown_networking_begin netconf) =
      lock_trace netconf @ [Acquire Event_lock, Release Event_lock]"
    by (simp add: shutdown_networking_begin_def)
  ultimately show ?thesis
    by (simp add: keeps_rule_def)
qed

text \<open>
  The example run: a pass in which the async watcher fires, then one in which the write
  watcher of descriptor 5 fires.
\<close>

lemma busy_run:
  "(case start_networking_worker (\<lambda>a. 0) 1 [async_pass, write_pass] (0, busy_net) of
      None \<Rightarrow> False
    | Some (st, nc') \<Rightarrow>
        st = Running \<and>
        lock_trace nc' =
          [Acquire Leader_lock, Acquire Event_lock, Release Event_lock, Release Leader_lock,
           Acquire Leader_lock, Release Leader_lock,
           Acquire (Output_lock 5), Acquire Event_lock, Release Event_lock,
           Release (Output_lock 5)])"
  by code_simp

theorem lock_nesting_event_lock_innermost_witness:
  "\<exists>nc'. start_networking_worker (\<lambda>a. 0) 1 [async_pass, write_pass] (0, busy_net) =
            Some (Running, nc') \<and>
         lock_trace nc' =
          [Acquire Leader_lock, Acquire Event_lock, Release Event_lock, Release Leader_lock,
           Acquire Leader_lock, Release Leader_lock,
           Acquire (Output_lock 5), Acquire Event_lock, Release Event_lock,
           Release (Output_lock 5)] \<and>
         (\<exists>t. lock_trace nc' = lock_trace busy_net @ t \<and>
              follows_rule event_lock_innermost [] t \<and> held_after [] t = [])"
proof -
  from busy_run obtain nc' where
    r: "start_networking_worker (\<lambda>a. 0) 1 [async_pass, write_pass] (0, busy_net) = Some (Running, nc')"
    and t: "lock_trace nc' =
          [Acquire Leader_lock, Acquire Event_lock, Release Event_lock, Release Leader_lock,
           Acquire Leader_lock, Release Leader_lock,
           Acquire (Output_lock 5), Acquire Event_lock, Release Event_lock,
           Release (Output_lock 5)]"
    by (auto split: option.splits)
  from lock_nesting_event_lock_innermost [OF r] r t show ?thesis by blast
qed

end
